theory Spec2Isabelle
  imports Main "HOL-Library.Word"
begin

section \<open>The account-state cache of \<^verbatim>\<open>state/state.go\<close>\<close>

text \<open>
  The Go type \<^verbatim>\<open>State\<close> keeps a cache of accounts in front of an authenticated trie
  (go-ethereum's \<^verbatim>\<open>SecureTrie\<close>) and a key/value store. The trie engine, the store,
  the RLP codec and the helpers of package \<^verbatim>\<open>cry\<close> are libraries: they are taken as a
  record of operations \<open>d\<close>, and every function of \<^verbatim>\<open>state.go\<close> is written over an
  arbitrary such record.

  Go mutates the state in place; here every method takes the state and returns the new
  one. A fixed-size byte array (\<^verbatim>\<open>cry.Hash\<close>, \<^verbatim>\<open>acc.Address\<close>) is a byte list, so that the
  slice expression \<^verbatim>\<open>h[:]\<close> is the list itself. A \<^verbatim>\<open>*big.Int\<close> is an \<open>int\<close>: the nil
  pointer is not a balance here, and a caller that changes a \<^verbatim>\<open>big.Int\<close> it has handed
  over or received is not modelled. A \<^verbatim>\<open>[]byte\<close> that the code compares with nil is a
  \<open>bytes option\<close>, \<open>None\<close> for nil. The pointer \<^verbatim>\<open>*cachedAccount\<close> that the cache holds
  for an address is the entry of the map at that address: what the code reads or writes
  through the pointer is read or written in the map.
\<close>

subsection \<open>Data\<close>

type_synonym bytes = "8 word list"
type_synonym hash = bytes
type_synonym address = bytes

datatype storageStep = noStorage | storageSet | storageUpdated

datatype panic = NilPointerDereference

record account =
  Balance :: int
  CodeHash :: hash
  StorageRoot :: hash

record 't cachedAccount =
  isDirty :: bool
  storageStep :: storageStep
  balance :: int
  code :: "bytes option"
  codeHash :: hash
  storageRoot :: hash
  storage :: "hash \<rightharpoonup> hash"
  storageTrie :: "'t option"

record ('t, 'kv, 'e) State =
  trie :: 't
  kv :: 'kv
  cachedAccounts :: "address \<rightharpoonup> 't cachedAccount"
  err :: "'e option"

text \<open>
  The operations the file imports. A trie handle of type \<open>'t\<close> reads the store it was
  opened on, so the operations that may resolve nodes take the store of the moment.
  \<open>TryGet\<close> and \<open>Hash\<close> leave the trie as it is (what they cache inside the handle
  cannot be observed). \<open>TryUpdate\<close> and \<open>TryDelete\<close> return the new trie, or the error
  and no new trie.
  \<open>TrieCommit\<close> is \<^verbatim>\<open>SecureTrie.Commit\<close>: it writes to the store, also when it fails.
  \<open>EncodeBytes\<close> is \<^verbatim>\<open>rlp.EncodeToBytes\<close> on a byte slice, whose error the code drops;
  \<open>Split\<close> is the content returned by \<^verbatim>\<open>rlp.Split\<close>.
\<close>

record ('t, 'kv, 'e) deps =
  NewSecure :: "hash \<Rightarrow> 'kv \<Rightarrow> 'e + 't"
  TryGet :: "'t \<Rightarrow> 'kv \<Rightarrow> bytes \<Rightarrow> 'e + bytes"
  TryUpdate :: "'t \<Rightarrow> 'kv \<Rightarrow> bytes \<Rightarrow> bytes \<Rightarrow> 'e + 't"
  TryDelete :: "'t \<Rightarrow> 'kv \<Rightarrow> bytes \<Rightarrow> 'e + 't"
  Hash :: "'t \<Rightarrow> hash"
  TrieCommit :: "'t \<Rightarrow> 'kv \<Rightarrow> ('e + hash) \<times> 't \<times> 'kv"
  kvGet :: "'kv \<Rightarrow> bytes \<Rightarrow> 'e + bytes option"
  kvPut :: "'kv \<Rightarrow> bytes \<Rightarrow> bytes option \<Rightarrow> 'e option \<times> 'kv"
  EncodeAccount :: "account \<Rightarrow> 'e + bytes"
  DecodeAccount :: "bytes \<Rightarrow> 'e + account"
  EncodeBytes :: "bytes \<Rightarrow> bytes"
  Split :: "bytes \<Rightarrow> 'e + bytes"
  Keccak256 :: "bytes \<Rightarrow> bytes"
  BytesToHash :: "bytes \<Rightarrow> hash"

subsection \<open>Helpers of the language\<close>

definition zeroHash :: hash where
  "zeroHash = replicate 32 0"

definition TrimLeft :: "bytes \<Rightarrow> bytes" where
  "TrimLeft b = dropWhile (\<lambda>x. x = 0) b"

definition bytesOf :: "bytes option \<Rightarrow> bytes" where
  "bytesOf b = (case b of None \<Rightarrow> [] | Some x \<Rightarrow> x)"

subsection \<open>Construction and the fault flag\<close>

definition New :: "('t, 'kv, 'e) deps \<Rightarrow> hash \<Rightarrow> 'kv \<Rightarrow> 'e + ('t, 'kv, 'e) State" where
  "New d root store =
     (case NewSecure d root store of
        Inl e \<Rightarrow> Inl e
      | Inr secureTrie \<Rightarrow>
          Inr \<lparr>trie = secureTrie, kv = store, cachedAccounts = Map.empty, err = None\<rparr>)"

definition Error :: "('t, 'kv, 'e) State \<Rightarrow> 'e option" where
  "Error s = err s"

subsection \<open>Loading an account\<close>

definition freshAccount :: "('t, 'kv, 'e) deps \<Rightarrow> 't cachedAccount" where
  "freshAccount d =
     \<lparr>isDirty = False, storageStep = noStorage, balance = 0, code = None,
      codeHash = BytesToHash d (Keccak256 d []), storageRoot = zeroHash,
      storage = Map.empty, storageTrie = None\<rparr>"

definition loadedAccount :: "account \<Rightarrow> 't cachedAccount" where
  "loadedAccount data =
     \<lparr>isDirty = False, storageStep = noStorage, balance = Balance data, code = None,
      codeHash = CodeHash data, storageRoot = StorageRoot data,
      storage = Map.empty, storageTrie = None\<rparr>"

definition getAccount ::
  "('t, 'kv, 'e) deps \<Rightarrow> ('t, 'kv, 'e) State \<Rightarrow> address
     \<Rightarrow> ('e + 't cachedAccount) \<times> ('t, 'kv, 'e) State" where
  "getAccount d s addr =
     (case cachedAccounts s addr of
        Some a \<Rightarrow> (Inr a, s)
      | None \<Rightarrow>
          (case TryGet d (trie s) (kv s) addr of
             Inl e \<Rightarrow> (Inl e, s\<lparr>err := Some e\<rparr>)
           | Inr enc \<Rightarrow>
               if length enc = 0 then
                 (Inr (freshAccount d),
                  s\<lparr>cachedAccounts := (cachedAccounts s)(addr \<mapsto> freshAccount d)\<rparr>)
               else
                 (case DecodeAccount d enc of
                    Inl e \<Rightarrow> (Inl e, s)
                  | Inr data \<Rightarrow>
                      let dirtyAcc = loadedAccount data in
                      if codeHash dirtyAcc \<noteq> Keccak256 d [] then
                        (case kvGet d (kv s) (codeHash dirtyAcc) of
                           Inl e \<Rightarrow> (Inl e, s)
                         | Inr c \<Rightarrow>
                             (Inr (dirtyAcc\<lparr>code := c\<rparr>),
                              s\<lparr>cachedAccounts :=
                                   (cachedAccounts s)(addr \<mapsto> dirtyAcc\<lparr>code := c\<rparr>)\<rparr>))
                      else
                        (Inr dirtyAcc,
                         s\<lparr>cachedAccounts := (cachedAccounts s)(addr \<mapsto> dirtyAcc)\<rparr>))))"

subsection \<open>Balance, code, existence\<close>

definition GetBalance ::
  "('t, 'kv, 'e) deps \<Rightarrow> ('t, 'kv, 'e) State \<Rightarrow> address \<Rightarrow> int \<times> ('t, 'kv, 'e) State" where
  "GetBalance d s addr =
     (case getAccount d s addr of
        (Inl e, s1) \<Rightarrow> (0, s1\<lparr>err := Some e\<rparr>)
      | (Inr a, s1) \<Rightarrow> (balance a, s1))"

definition SetBalance ::
  "('t, 'kv, 'e) deps \<Rightarrow> ('t, 'kv, 'e) State \<Rightarrow> address \<Rightarrow> int \<Rightarrow> ('t, 'kv, 'e) State" where
  "SetBalance d s addr b =
     (case getAccount d s addr of
        (Inl e, s1) \<Rightarrow> s1\<lparr>err := Some e\<rparr>
      | (Inr a, s1) \<Rightarrow>
          s1\<lparr>cachedAccounts := (cachedAccounts s1)(addr \<mapsto> a\<lparr>isDirty := True, balance := b\<rparr>)\<rparr>)"

definition GetCode ::
  "('t, 'kv, 'e) deps \<Rightarrow> ('t, 'kv, 'e) State \<Rightarrow> address
     \<Rightarrow> bytes option \<times> ('t, 'kv, 'e) State" where
  "GetCode d s addr =
     (case getAccount d s addr of
        (Inl e, s1) \<Rightarrow> (None, s1\<lparr>err := Some e\<rparr>)
      | (Inr a, s1) \<Rightarrow> (code a, s1))"

definition SetCode ::
  "('t, 'kv, 'e) deps \<Rightarrow> ('t, 'kv, 'e) State \<Rightarrow> address \<Rightarrow> bytes option
     \<Rightarrow> ('t, 'kv, 'e) State" where
  "SetCode d s addr c =
     (case getAccount d s addr of
        (Inl e, s1) \<Rightarrow> s1\<lparr>err := Some e\<rparr>
      | (Inr a, s1) \<Rightarrow>
          let h = BytesToHash d (bytesOf c);
              (r, store) = kvPut d (kv s1) h c;
              s2 = (case r of Some e \<Rightarrow> s1\<lparr>kv := store, err := Some e\<rparr>
                            | None \<Rightarrow> s1\<lparr>kv := store\<rparr>)
          in s2\<lparr>cachedAccounts :=
                  (cachedAccounts s2)(addr \<mapsto> a\<lparr>isDirty := True, codeHash := h, code := c\<rparr>)\<rparr>)"

definition Exists ::
  "('t, 'kv, 'e) deps \<Rightarrow> ('t, 'kv, 'e) State \<Rightarrow> address \<Rightarrow> bool \<times> ('t, 'kv, 'e) State" where
  "Exists d s addr =
     (case cachedAccounts s addr of
        Some a \<Rightarrow> (True, s)
      | None \<Rightarrow>
          (case TryGet d (trie s) (kv s) addr of
             Inl e \<Rightarrow> (False, s\<lparr>err := Some e\<rparr>)
           | Inr enc \<Rightarrow> if length enc = 0 then (False, s) else (True, s)))"

definition Delete ::
  "('t, 'kv, 'e) deps \<Rightarrow> ('t, 'kv, 'e) State \<Rightarrow> address \<Rightarrow> ('t, 'kv, 'e) State" where
  "Delete d s addr =
     (let s1 = s\<lparr>cachedAccounts := (cachedAccounts s)(addr := None)\<rparr>
      in case TryDelete d (trie s1) (kv s1) addr of
           Inl e \<Rightarrow> s1\<lparr>err := Some e\<rparr>
         | Inr t \<Rightarrow> s1\<lparr>trie := t\<rparr>)"

subsection \<open>Storage\<close>

text \<open>
  \<^verbatim>\<open>getTrie\<close> reads \<^verbatim>\<open>s.cachedAccounts[addr].storageTrie\<close>: on an address that is not
  cached the map yields a nil pointer and the field access panics.
\<close>

definition getTrie ::
  "('t, 'kv, 'e) deps \<Rightarrow> ('t, 'kv, 'e) State \<Rightarrow> address
     \<Rightarrow> panic + (('e + 't) \<times> ('t, 'kv, 'e) State)" where
  "getTrie d s addr =
     (case cachedAccounts s addr of
        None \<Rightarrow> Inl NilPointerDereference
      | Some a \<Rightarrow>
          (case storageTrie a of
             Some t \<Rightarrow> Inr (Inr t, s)
           | None \<Rightarrow>
               (case NewSecure d (storageRoot a) (kv s) of
                  Inl e \<Rightarrow> Inr (Inl e, s)
                | Inr secureTrie \<Rightarrow>
                    Inr (Inr secureTrie,
                         s\<lparr>cachedAccounts :=
                              (cachedAccounts s)(addr \<mapsto> a\<lparr>storageTrie := Some secureTrie\<rparr>)\<rparr>))))"

text \<open>
  A write through the pointer \<^verbatim>\<open>*cachedAccount\<close> that the map holds for \<open>addr\<close>.
\<close>

definition through ::
  "address \<Rightarrow> ('t cachedAccount \<Rightarrow> 't cachedAccount) \<Rightarrow> ('t, 'kv, 'e) State
     \<Rightarrow> ('t, 'kv, 'e) State" where
  "through addr f s =
     (case cachedAccounts s addr of
        None \<Rightarrow> s
      | Some a \<Rightarrow> s\<lparr>cachedAccounts := (cachedAccounts s)(addr \<mapsto> f a)\<rparr>)"

definition SetStorage ::
  "('t, 'kv, 'e) deps \<Rightarrow> ('t, 'kv, 'e) State \<Rightarrow> address \<Rightarrow> hash \<Rightarrow> hash
     \<Rightarrow> ('t, 'kv, 'e) State" where
  "SetStorage d s addr key val =
     (case getAccount d s addr of
        (Inl e, s1) \<Rightarrow> s1\<lparr>err := Some e\<rparr>
      | (Inr a, s1) \<Rightarrow>
          s1\<lparr>cachedAccounts :=
               (cachedAccounts s1)
                 (addr \<mapsto> a\<lparr>storageStep := storageSet, storage := (storage a)(key \<mapsto> val)\<rparr>)\<rparr>)"

definition overlay :: "('t, 'kv, 'e) State \<Rightarrow> address \<Rightarrow> hash \<Rightarrow> hash option" where
  "overlay s addr key =
     (case cachedAccounts s addr of None \<Rightarrow> None | Some a \<Rightarrow> storage a key)"

definition GetStorage ::
  "('t, 'kv, 'e) deps \<Rightarrow> ('t, 'kv, 'e) State \<Rightarrow> address \<Rightarrow> hash
     \<Rightarrow> panic + (hash \<times> ('t, 'kv, 'e) State)" where
  "GetStorage d s addr key =
     (case overlay s addr key of
        Some val \<Rightarrow> Inr (val, s)
      | None \<Rightarrow>
          (case getAccount d s addr of
             (Inl e, s1) \<Rightarrow> Inr (zeroHash, s1\<lparr>err := Some e\<rparr>)
           | (Inr a, s1) \<Rightarrow>
               (case getTrie d s1 addr of
                  Inl p \<Rightarrow> Inl p
                | Inr (Inl e, s2) \<Rightarrow> Inr (zeroHash, s2\<lparr>err := Some e\<rparr>)
                | Inr (Inr st, s2) \<Rightarrow>
                    (case TryGet d st (kv s2) key of
                       Inl e \<Rightarrow> Inr (zeroHash, s2\<lparr>err := Some e\<rparr>)
                     | Inr enc \<Rightarrow>
                         if length enc = 0 then Inr (zeroHash, s2)
                         else
                           (case Split d enc of
                              Inl e \<Rightarrow> Inr (zeroHash, s2\<lparr>err := Some e\<rparr>)
                            | Inr content \<Rightarrow>
                                let val = BytesToHash d content
                                in Inr (val,
                                        through addr
                                          (\<lambda>a. a\<lparr>storage := (storage a)(key \<mapsto> val)\<rparr>) s2))))))"

subsection \<open>Flushing: storage tries, then the account trie\<close>

text \<open>
  Go ranges over a map in an order it does not specify. The walks below take the order
  as a list of keys; a key whose entry is gone when its turn comes is not produced.
  Each walk removes at most the entry it is visiting and adds none.

  The three ways a loop body ends: the loop goes on, the method returns the zero hash
  early, or the goroutine panics.
\<close>

datatype 'a flow = Continue 'a | Return 'a | Panicked

definition iterates :: "('k \<rightharpoonup> 'v) \<Rightarrow> 'k list \<Rightarrow> bool" where
  "iterates m ks \<longleftrightarrow> distinct ks \<and> set ks = dom m"

text \<open>
  The loop of \<^verbatim>\<open>updateStorage\<close>. When \<^verbatim>\<open>TryUpdate\<close> fails, the code assigns \<^verbatim>\<open>err\<close>, the
  (nil) error of the earlier \<^verbatim>\<open>getTrie\<close> call, to \<^verbatim>\<open>s.err\<close> and returns \<^verbatim>\<open>nil, err\<close>: the fault
  flag is cleared and the caller receives a nil trie with a nil error.
\<close>

fun updateStorage_loop ::
  "('t, 'kv, 'e) deps \<Rightarrow> address \<Rightarrow> 't \<Rightarrow> ('t, 'kv, 'e) State \<Rightarrow> hash list
     \<Rightarrow> 't option \<times> ('t, 'kv, 'e) State" where
  "updateStorage_loop d addr st s [] = (Some st, s)"
| "updateStorage_loop d addr st s (key # keys) =
     (case overlay s addr key of
        None \<Rightarrow> updateStorage_loop d addr st s keys
      | Some val \<Rightarrow>
          (case TryUpdate d st (kv s) key (EncodeBytes d (TrimLeft val)) of
             Inl e \<Rightarrow> (None, s\<lparr>err := None\<rparr>)
           | Inr st' \<Rightarrow>
               updateStorage_loop d addr st'
                 (through addr
                    (\<lambda>a. a\<lparr>storageTrie := Some st', storage := (storage a)(key := None)\<rparr>) s)
                 keys))"

definition updateStorage ::
  "('t, 'kv, 'e) deps \<Rightarrow> hash list \<Rightarrow> ('t, 'kv, 'e) State \<Rightarrow> address
     \<Rightarrow> panic + (('e + 't option) \<times> ('t, 'kv, 'e) State)" where
  "updateStorage d keys s addr =
     (case getTrie d s addr of
        Inl p \<Rightarrow> Inl p
      | Inr (Inl e, s1) \<Rightarrow> Inr (Inl e, s1)
      | Inr (Inr st, s1) \<Rightarrow>
          (case updateStorage_loop d addr st s1 keys of (r, s2) \<Rightarrow> Inr (Inr r, s2)))"

definition updateAccount ::
  "('t, 'kv, 'e) deps \<Rightarrow> ('t, 'kv, 'e) State \<Rightarrow> address \<Rightarrow> 't cachedAccount
     \<Rightarrow> 'e option \<times> ('t, 'kv, 'e) State" where
  "updateAccount d s addr ca =
     (let a = \<lparr>Balance = balance ca, CodeHash = codeHash ca, StorageRoot = storageRoot ca\<rparr>
      in case EncodeAccount d a of
           Inl e \<Rightarrow> (Some e, s)
         | Inr enc \<Rightarrow>
             (case TryUpdate d (trie s) (kv s) addr enc of
                Inl e \<Rightarrow> (Some e, s\<lparr>err := Some e\<rparr>)
              | Inr t \<Rightarrow> (None, s\<lparr>trie := t\<rparr>)))"

definition isEmpty :: "'t cachedAccount \<Rightarrow> bool" where
  "isEmpty a \<longleftrightarrow> balance a = 0 \<and> code a = None"

text \<open>
  The body of the loop of \<^verbatim>\<open>Root\<close> in its two parts: the storage flush of an account
  whose step is \<^verbatim>\<open>storageSet\<close>, and the write of a dirty account into the account trie.
  \<^verbatim>\<open>trie.Hash()\<close> on the nil trie that \<^verbatim>\<open>updateStorage\<close> can return dereferences nil.
\<close>

definition Root_storage ::
  "('t, 'kv, 'e) deps \<Rightarrow> hash list \<Rightarrow> ('t, 'kv, 'e) State \<Rightarrow> address
     \<Rightarrow> ('t, 'kv, 'e) State flow" where
  "Root_storage d keys s addr =
     (case updateStorage d keys s addr of
        Inl p \<Rightarrow> Panicked
      | Inr (Inl e, s1) \<Rightarrow> Return (s1\<lparr>err := Some e\<rparr>)
      | Inr (Inr None, s1) \<Rightarrow> Panicked
      | Inr (Inr (Some t), s1) \<Rightarrow>
          Continue
            (through addr
               (\<lambda>a. a\<lparr>storageRoot := Hash d t, isDirty := True,
                      storageStep := storageUpdated\<rparr>) s1))"

definition Root_dirty ::
  "('t, 'kv, 'e) deps \<Rightarrow> ('t, 'kv, 'e) State \<Rightarrow> address \<Rightarrow> ('t, 'kv, 'e) State flow" where
  "Root_dirty d s addr =
     (case cachedAccounts s addr of
        None \<Rightarrow> Continue s
      | Some a \<Rightarrow>
          if isDirty a then
            (case updateAccount d s addr a of
               (Some e, s1) \<Rightarrow> Return (s1\<lparr>err := Some e\<rparr>)
             | (None, s1) \<Rightarrow> Continue (through addr (\<lambda>a. a\<lparr>isDirty := False\<rparr>) s1))
          else Continue s)"

definition Root_account ::
  "('t, 'kv, 'e) deps \<Rightarrow> hash list \<Rightarrow> ('t, 'kv, 'e) State \<Rightarrow> address \<Rightarrow> 't cachedAccount
     \<Rightarrow> ('t, 'kv, 'e) State flow" where
  "Root_account d keys s addr a =
     (if isEmpty a then Continue (Delete d s addr)
      else
        (case (if storageStep a = storageSet then Root_storage d keys s addr else Continue s) of
           Continue s1 \<Rightarrow> Root_dirty d s1 addr
         | Return s1 \<Rightarrow> Return s1
         | Panicked \<Rightarrow> Panicked))"

fun Root_loop ::
  "('t, 'kv, 'e) deps \<Rightarrow> (address \<Rightarrow> hash list) \<Rightarrow> address list \<Rightarrow> ('t, 'kv, 'e) State
     \<Rightarrow> ('t, 'kv, 'e) State flow" where
  "Root_loop d ko [] s = Continue s"
| "Root_loop d ko (addr # addrs) s =
     (case cachedAccounts s addr of
        None \<Rightarrow> Root_loop d ko addrs s
      | Some a \<Rightarrow>
          (case Root_account d (ko addr) s addr a of
             Continue s1 \<Rightarrow> Root_loop d ko addrs s1
           | Return s1 \<Rightarrow> Return s1
           | Panicked \<Rightarrow> Panicked))"

text \<open>
  \<open>Root d ao ko s\<close>: \<open>ao\<close> is the order in which the range over the cache produces the
  addresses, \<open>ko addr\<close> the order in which the range over the overlay of \<open>addr\<close> produces
  its keys.
\<close>

definition Root ::
  "('t, 'kv, 'e) deps \<Rightarrow> address list \<Rightarrow> (address \<Rightarrow> hash list) \<Rightarrow> ('t, 'kv, 'e) State
     \<Rightarrow> panic + (hash \<times> ('t, 'kv, 'e) State)" where
  "Root d ao ko s =
     (case Root_loop d ko ao s of
        Continue s1 \<Rightarrow> Inr (Hash d (trie s1), s1)
      | Return s1 \<Rightarrow> Inr (zeroHash, s1)
      | Panicked \<Rightarrow> Inl NilPointerDereference)"

definition Commit_account ::
  "('t, 'kv, 'e) deps \<Rightarrow> ('t, 'kv, 'e) State \<Rightarrow> address \<Rightarrow> 't cachedAccount
     \<Rightarrow> ('t, 'kv, 'e) State flow" where
  "Commit_account d s addr a =
     (case (if storageStep a = storageUpdated then
              (case getTrie d s addr of
                 Inl p \<Rightarrow> Panicked
               | Inr (Inl e, s1) \<Rightarrow> Return (s1\<lparr>err := Some e\<rparr>)
               | Inr (Inr st, s1) \<Rightarrow>
                   (case TrieCommit d st (kv s1) of
                      (r, st', store) \<Rightarrow>
                        let s2 = through addr (\<lambda>a. a\<lparr>storageTrie := Some st'\<rparr>) (s1\<lparr>kv := store\<rparr>)
                        in (case r of
                              Inl e \<Rightarrow> Return (s2\<lparr>err := Some e\<rparr>)
                            | Inr h \<Rightarrow> Continue s2)))
            else Continue s) of
        Continue s3 \<Rightarrow> Continue (s3\<lparr>cachedAccounts := (cachedAccounts s3)(addr := None)\<rparr>)
      | Return s3 \<Rightarrow> Return s3
      | Panicked \<Rightarrow> Panicked)"

fun Commit_loop ::
  "('t, 'kv, 'e) deps \<Rightarrow> address list \<Rightarrow> ('t, 'kv, 'e) State \<Rightarrow> ('t, 'kv, 'e) State flow" where
  "Commit_loop d [] s = Continue s"
| "Commit_loop d (addr # addrs) s =
     (case cachedAccounts s addr of
        None \<Rightarrow> Commit_loop d addrs s
      | Some a \<Rightarrow>
          (case Commit_account d s addr a of
             Continue s1 \<Rightarrow> Commit_loop d addrs s1
           | Return s1 \<Rightarrow> Return s1
           | Panicked \<Rightarrow> Panicked))"

text \<open>
  \<open>Commit d ao ko co s\<close>: \<open>ao\<close> and \<open>ko\<close> are the orders of the \<^verbatim>\<open>Root\<close> call, whose
  result the code drops, and \<open>co\<close> is the order of the second range over the cache.
\<close>

definition Commit ::
  "('t, 'kv, 'e) deps \<Rightarrow> address list \<Rightarrow> (address \<Rightarrow> hash list) \<Rightarrow> address list
     \<Rightarrow> ('t, 'kv, 'e) State \<Rightarrow> panic + (hash \<times> ('t, 'kv, 'e) State)" where
  "Commit d ao ko co s =
     (case Root d ao ko s of
        Inl p \<Rightarrow> Inl p
      | Inr (h, s1) \<Rightarrow>
          (case Commit_loop d co s1 of
             Panicked \<Rightarrow> Inl NilPointerDereference
           | Return s2 \<Rightarrow> Inr (zeroHash, s2)
           | Continue s2 \<Rightarrow>
               (case TrieCommit d (trie s2) (kv s2) of
                  (Inl e, t, store) \<Rightarrow> Inr (zeroHash, s2\<lparr>trie := t, kv := store, err := Some e\<rparr>)
                | (Inr root, t, store) \<Rightarrow> Inr (root, s2\<lparr>trie := t, kv := store\<rparr>))))"

subsection \<open>Notions used in the statements\<close>

text \<open>
  An account is settled when a walk of \<^verbatim>\<open>Root\<close> has nothing to do for it.
  \<open>pushAll d store m keys st\<close> writes every entry of the overlay \<open>m\<close> into the trie
  \<open>st\<close>, encoded as \<^verbatim>\<open>updateStorage\<close> encodes it, in the order \<open>keys\<close>; it is \<open>None\<close> when
  an update fails.
\<close>

definition settled :: "'t cachedAccount \<Rightarrow> bool" where
  "settled a \<longleftrightarrow> \<not> isEmpty a \<and> storageStep a \<noteq> storageSet \<and> \<not> isDirty a"

fun pushAll ::
  "('t, 'kv, 'e) deps \<Rightarrow> 'kv \<Rightarrow> (hash \<rightharpoonup> hash) \<Rightarrow> hash list \<Rightarrow> 't \<Rightarrow> 't option" where
  "pushAll d store m [] st = Some st"
| "pushAll d store m (k # ks) st =
     (case m k of
        None \<Rightarrow> pushAll d store m ks st
      | Some v \<Rightarrow>
          (case TryUpdate d st store k (EncodeBytes d (TrimLeft v)) of
             Inl e \<Rightarrow> None
           | Inr st' \<Rightarrow> pushAll d store m ks st'))"

text \<open>
  What the pruning claim needs from the trie engine. A key is absent from a trie when a
  read of it succeeds with the empty string. The laws: a key is absent after its own
  delete; an absent key stays absent when another key is updated or deleted, and when
  a trie is committed to the store.
\<close>

definition absent :: "('t, 'kv, 'e) deps \<Rightarrow> 't \<Rightarrow> 'kv \<Rightarrow> bytes \<Rightarrow> bool" where
  "absent d t store k \<longleftrightarrow> (case TryGet d t store k of Inl e \<Rightarrow> False | Inr enc \<Rightarrow> length enc = 0)"

definition deletion_laws :: "('t, 'kv, 'e) deps \<Rightarrow> bool" where
  "deletion_laws d \<longleftrightarrow>
     (\<forall>t store k t'. TryDelete d t store k = Inr t' \<longrightarrow> absent d t' store k) \<and>
     (\<forall>t store k k' v t'.
        k' \<noteq> k \<and> absent d t store k \<and> TryUpdate d t store k' v = Inr t' \<longrightarrow> absent d t' store k) \<and>
     (\<forall>t store k k' t'.
        k' \<noteq> k \<and> absent d t store k \<and> TryDelete d t store k' = Inr t' \<longrightarrow> absent d t' store k) \<and>
     (\<forall>t store k t2 r t2' store'.
        absent d t store k \<and> TrieCommit d t2 store = (r, t2', store') \<longrightarrow>
          absent d t store' k \<and> (t2 = t \<longrightarrow> absent d t2' store' k))"

text \<open>
  What the determinism claim needs from the trie engine: a trie \<open>t\<close> has a content
  \<open>\<alpha> t\<close>, a map from keys to values; a successful update or delete changes the
  content at its key only (an update with the empty string deletes); the digest is a
  function \<open>H\<close> of the content; a successful commit returns the digest of the trie.
  \<open>walkContent\<close> is the content of the account trie that a walk of \<^verbatim>\<open>Root\<close> over the
  state \<open>s\<close> leads to: at a cached address the encoded account, with the storage root
  that the flush of its overlay gives, and nothing for an empty account.
\<close>

definition held :: "bytes \<Rightarrow> bytes option" where
  "held e = (if e = [] then None else Some e)"

definition canonical ::
  "('t, 'kv, 'e) deps \<Rightarrow> ('t \<Rightarrow> bytes \<rightharpoonup> bytes) \<Rightarrow> ((bytes \<rightharpoonup> bytes) \<Rightarrow> hash) \<Rightarrow> bool" where
  "canonical d \<alpha> H \<longleftrightarrow>
     (\<forall>t store k v t'. TryUpdate d t store k v = Inr t' \<longrightarrow> \<alpha> t' = (\<alpha> t)(k := held v)) \<and>
     (\<forall>t store k t'. TryDelete d t store k = Inr t' \<longrightarrow> \<alpha> t' = (\<alpha> t)(k := None)) \<and>
     (\<forall>t. Hash d t = H (\<alpha> t)) \<and>
     (\<forall>t store h t' store'. TrieCommit d t store = (Inr h, t', store') \<longrightarrow> h = Hash d t)"

definition openTrie :: "('t, 'kv, 'e) deps \<Rightarrow> 'kv \<Rightarrow> 't cachedAccount \<Rightarrow> 't option" where
  "openTrie d store a =
     (case storageTrie a of
        Some t \<Rightarrow> Some t
      | None \<Rightarrow> (case NewSecure d (storageRoot a) store of Inl e \<Rightarrow> None | Inr t \<Rightarrow> Some t))"

definition flushedContent ::
  "('t, 'kv, 'e) deps \<Rightarrow> (bytes \<rightharpoonup> bytes) \<Rightarrow> (hash \<rightharpoonup> hash) \<Rightarrow> bytes \<rightharpoonup> bytes" where
  "flushedContent d c m =
     (\<lambda>k. case m k of None \<Rightarrow> c k | Some v \<Rightarrow> held (EncodeBytes d (TrimLeft v)))"

definition newRoot ::
  "('t, 'kv, 'e) deps \<Rightarrow> ('t \<Rightarrow> bytes \<rightharpoonup> bytes) \<Rightarrow> ((bytes \<rightharpoonup> bytes) \<Rightarrow> hash) \<Rightarrow> 'kv
     \<Rightarrow> 't cachedAccount \<Rightarrow> hash" where
  "newRoot d \<alpha> H store a =
     (if storageStep a = storageSet then
        (case openTrie d store a of
           None \<Rightarrow> storageRoot a
         | Some st0 \<Rightarrow> H (flushedContent d (\<alpha> st0) (storage a)))
      else storageRoot a)"

definition accountEntry ::
  "('t, 'kv, 'e) deps \<Rightarrow> ('t \<Rightarrow> bytes \<rightharpoonup> bytes) \<Rightarrow> ((bytes \<rightharpoonup> bytes) \<Rightarrow> hash) \<Rightarrow> 'kv
     \<Rightarrow> 't cachedAccount \<Rightarrow> bytes option \<Rightarrow> bytes option" where
  "accountEntry d \<alpha> H store a old =
     (if isEmpty a then None
      else if storageStep a = storageSet \<or> isDirty a then
        (case EncodeAccount d \<lparr>Balance = balance a, CodeHash = codeHash a,
                                StorageRoot = newRoot d \<alpha> H store a\<rparr> of
           Inl e \<Rightarrow> old
         | Inr enc \<Rightarrow> held enc)
      else old)"

definition walkContent ::
  "('t, 'kv, 'e) deps \<Rightarrow> ('t \<Rightarrow> bytes \<rightharpoonup> bytes) \<Rightarrow> ((bytes \<rightharpoonup> bytes) \<Rightarrow> hash)
     \<Rightarrow> ('t, 'kv, 'e) State \<Rightarrow> bytes \<rightharpoonup> bytes" where
  "walkContent d \<alpha> H s =
     (\<lambda>x. case cachedAccounts s x of
             None \<Rightarrow> \<alpha> (trie s) x
           | Some a \<Rightarrow> accountEntry d \<alpha> H (kv s) a (\<alpha> (trie s) x))"

text \<open>A sequence of mutations, as a caller issues them.\<close>

datatype op = SetBalanceOp address int | SetStorageOp address hash hash
  | SetCodeOp address "bytes option"

fun apply_op :: "('t, 'kv, 'e) deps \<Rightarrow> ('t, 'kv, 'e) State \<Rightarrow> op \<Rightarrow> ('t, 'kv, 'e) State" where
  "apply_op d s (SetBalanceOp addr b) = SetBalance d s addr b"
| "apply_op d s (SetStorageOp addr k v) = SetStorage d s addr k v"
| "apply_op d s (SetCodeOp addr c) = SetCode d s addr c"

definition run :: "('t, 'kv, 'e) deps \<Rightarrow> op list \<Rightarrow> ('t, 'kv, 'e) State \<Rightarrow> ('t, 'kv, 'e) State" where
  "run d ops s = foldl (apply_op d) s ops"

subsection \<open>An in-memory instance of the imported operations\<close>

text \<open>
  A small instance on which the methods can be evaluated: a trie is a finite map from
  keys to values, opened empty from the zero root; the store is a map; byte strings are
  encoded as short RLP strings; an account record is encoded as its balance byte
  followed by the two hashes. \<open>mem_Hash\<close> stands for the digest: it reads the trie at
  the keys of \<open>mem_probes\<close>. The instances \<open>lossy\<close> and \<open>brittle\<close> fail where a trie
  node is missing from the store: \<open>lossy\<close> on reads of the account trie, \<open>brittle\<close> on
  the update of one storage key, \<open>stuck\<close> on the update of one account. No general
  theorem below depends on these instances; they serve the evaluations at concrete
  inputs only.
\<close>

type_synonym mem_trie = "bytes \<rightharpoonup> bytes"
type_synonym mem_kv = "bytes \<rightharpoonup> bytes option"

definition mem_BytesToHash :: "bytes \<Rightarrow> hash" where
  "mem_BytesToHash b = replicate (32 - length b) 0 @ drop (length b - 32) b"

definition addrA :: address where
  "addrA = [0,0,0,0,0,0,0,0,0,0,0,0,0,0,0,0,0,0,0,10]"

definition addrB :: address where
  "addrB = [0,0,0,0,0,0,0,0,0,0,0,0,0,0,0,0,0,0,0,11]"

definition key1 :: hash where
  "key1 = [0,0,0,0,0,0,0,0,0,0,0,0,0,0,0,0,0,0,0,0,0,0,0,0,0,0,0,0,0,0,0,1]"

definition val7 :: hash where
  "val7 = [0,0,0,0,0,0,0,0,0,0,0,0,0,0,0,0,0,0,0,0,0,0,0,0,0,0,0,0,0,0,0,7]"

definition mem_probes :: "bytes list" where
  "mem_probes = [addrA, addrB, key1]"

definition mem_Hash :: "mem_trie \<Rightarrow> hash" where
  "mem_Hash t = take 32 (1 # concat (map (\<lambda>k. bytesOf (t k)) mem_probes) @ zeroHash)"

definition mem_EncodeBytes :: "bytes \<Rightarrow> bytes" where
  "mem_EncodeBytes b =
     (if length b = 1 \<and> hd b < 128 then b else (128 + of_nat (length b)) # b)"

definition mem_Split :: "bytes \<Rightarrow> string + bytes" where
  "mem_Split enc =
     (case enc of
        [] \<Rightarrow> Inl ''rlp: value size exceeds available input length''
      | x # xs \<Rightarrow> if x < 128 then Inr [x] else Inr (take (unat (x - 128)) xs))"

definition mem_EncodeAccount :: "account \<Rightarrow> string + bytes" where
  "mem_EncodeAccount a =
     (if Balance a < 0 then Inl ''rlp: cannot encode negative *big.Int''
      else Inr (word_of_int (Balance a) # CodeHash a @ StorageRoot a))"

definition mem_DecodeAccount :: "bytes \<Rightarrow> string + account" where
  "mem_DecodeAccount enc =
     (case enc of
        [] \<Rightarrow> Inl ''rlp: value size exceeds available input length''
      | b # rest \<Rightarrow>
          Inr \<lparr>Balance = uint b, CodeHash = take 32 rest, StorageRoot = drop 32 rest\<rparr>)"

definition mem :: "(mem_trie, mem_kv, string) deps" where
  "mem =
     \<lparr>NewSecure = (\<lambda>h store. if h = zeroHash \<or> h = mem_Hash Map.empty then Inr Map.empty
                                else Inl ''missing trie node''),
      TryGet = (\<lambda>t store k. Inr (bytesOf (t k))),
      TryUpdate = (\<lambda>t store k v. Inr (if v = [] then t(k := None) else t(k \<mapsto> v))),
      TryDelete = (\<lambda>t store k. Inr (t(k := None))),
      Hash = mem_Hash,
      TrieCommit = (\<lambda>t store. (Inr (mem_Hash t), t, store)),
      kvGet = (\<lambda>store k. case store k of None \<Rightarrow> Inl ''not found'' | Some v \<Rightarrow> Inr v),
      kvPut = (\<lambda>store k v. (None, store(k \<mapsto> v))),
      EncodeAccount = mem_EncodeAccount,
      DecodeAccount = mem_DecodeAccount,
      EncodeBytes = mem_EncodeBytes,
      Split = mem_Split,
      Keccak256 = (\<lambda>b. replicate 31 197 @ [of_nat (length b)]),
      BytesToHash = mem_BytesToHash\<rparr>"


definition brittle :: "(mem_trie, mem_kv, string) deps" where
  "brittle =
     mem\<lparr>TryUpdate :=
           (\<lambda>t store k v.
              if k = key1 then Inl ''missing trie node'' else TryUpdate mem t store k v)\<rparr>"

definition stuck :: "(mem_trie, mem_kv, string) deps" where
  "stuck =
     mem\<lparr>TryUpdate :=
           (\<lambda>t store k v.
              if k = addrA then Inl ''missing trie node'' else TryUpdate mem t store k v)\<rparr>"

definition mem0 :: "(mem_trie, mem_kv, string) State" where
  "mem0 = \<lparr>trie = Map.empty, kv = Map.empty, cachedAccounts = Map.empty, err = None\<rparr>"

text \<open>
  States used below. \<open>pendingA\<close>: account A holds a balance of 1 and one storage
  write that has not been flushed (its account is \<open>accountA\<close>). \<open>flushedA\<close>: the same
  after a walk of \<^verbatim>\<open>Root\<close>; the storage trie of A holds the value 7 under \<open>key1\<close> and the
  overlay is empty. \<open>zeroedA\<close>: the same with the balance of A set to 0.
  \<open>twoAccounts\<close>: accounts B and A hold
  balances. \<open>opsAB\<close>: three mutations on A and B, with \<open>koA\<close> an order of the overlay
  keys of each account after them.
\<close>

definition pendingA :: "(mem_trie, mem_kv, string) State" where
  "pendingA = SetStorage brittle (SetBalance brittle mem0 addrA 1) addrA key1 val7"

definition accountA :: "mem_trie cachedAccount" where
  "accountA =
     (freshAccount mem)\<lparr>isDirty := True, balance := 1, storageStep := storageSet,
                         storage := [key1 \<mapsto> val7]\<rparr>"

definition flushedA :: "(mem_trie, mem_kv, string) State" where
  "flushedA =
     mem0\<lparr>trie := [addrA \<mapsto> 1 # codeHash accountA @ mem_Hash [key1 \<mapsto> [7]]],
          cachedAccounts :=
            [addrA \<mapsto> accountA\<lparr>storageTrie := Some [key1 \<mapsto> [7]], storage := Map.empty,
                                storageRoot := mem_Hash [key1 \<mapsto> [7]], isDirty := False,
                                storageStep := storageUpdated\<rparr>]\<rparr>"

definition zeroedA :: "(mem_trie, mem_kv, string) State" where
  "zeroedA = SetBalance mem flushedA addrA 0"

definition opsAB :: "op list" where
  "opsAB = [SetBalanceOp addrB 5, SetBalanceOp addrA 1, SetStorageOp addrA key1 val7]"

definition koA :: "address \<Rightarrow> hash list" where
  "koA x = (if x = addrA then [key1] else [])"

definition accountB :: "mem_trie cachedAccount" where
  "accountB = (freshAccount mem)\<lparr>isDirty := True, balance := 5\<rparr>"

definition twoAccounts :: "(mem_trie, mem_kv, string) State" where
  "twoAccounts = SetBalance stuck (SetBalance stuck mem0 addrB 5) addrA 1"

section \<open>Properties\<close>

subsection \<open>Facts about the account lookup\<close>

lemma getAccount_cached:
  "cachedAccounts s addr = Some a \<Longrightarrow> getAccount d s addr = (Inr a, s)"
  by (simp add: getAccount_def)

lemma getAccount_Inr_cached:
  "getAccount d s addr = (Inr a, s1) \<Longrightarrow> cachedAccounts s1 addr = Some a"
  by (auto simp: getAccount_def Let_def split: option.splits sum.splits if_splits)




subsection \<open>Evaluating the in-memory instances\<close>

lemma mem_ops:
  "NewSecure mem = (\<lambda>h store. if h = zeroHash \<or> h = mem_Hash Map.empty then Inr Map.empty
                                else Inl ''missing trie node'')"
  "TryGet mem = (\<lambda>t store k. Inr (bytesOf (t k)))"
  "TryUpdate mem = (\<lambda>t store k v. Inr (if v = [] then t(k := None) else t(k \<mapsto> v)))"
  "TryDelete mem = (\<lambda>t store k. Inr (t(k := None)))"
  "Hash mem = mem_Hash"
  "TrieCommit mem = (\<lambda>t store. (Inr (mem_Hash t), t, store))"
  "kvGet mem = (\<lambda>store k. case store k of None \<Rightarrow> Inl ''not found'' | Some v \<Rightarrow> Inr v)"
  "kvPut mem = (\<lambda>store k v. (None, store(k \<mapsto> v)))"
  "EncodeAccount mem = mem_EncodeAccount"
  "DecodeAccount mem = mem_DecodeAccount"
  "EncodeBytes mem = mem_EncodeBytes"
  "Split mem = mem_Split"
  "BytesToHash mem = mem_BytesToHash"
  by (simp_all add: mem_def)

lemma brittle_ops:
  "NewSecure brittle = NewSecure mem" "TryGet brittle = TryGet mem"
  "TryDelete brittle = TryDelete mem" "Hash brittle = Hash mem"
  "TrieCommit brittle = TrieCommit mem" "kvGet brittle = kvGet mem"
  "kvPut brittle = kvPut mem" "EncodeAccount brittle = EncodeAccount mem"
  "DecodeAccount brittle = DecodeAccount mem" "EncodeBytes brittle = EncodeBytes mem"
  "Split brittle = Split mem" "Keccak256 brittle = Keccak256 mem"
  "BytesToHash brittle = BytesToHash mem"
  "TryUpdate brittle t store key1 v = Inl ''missing trie node''"
  by (simp_all add: brittle_def)

lemma addr_neq:
  "addrA \<noteq> addrB" "addrB \<noteq> addrA" "addrA \<noteq> key1" "addrB \<noteq> key1"
  "key1 \<noteq> addrA" "key1 \<noteq> addrB"
  by (simp_all add: addrA_def addrB_def key1_def)

lemma stuck_ops:
  "NewSecure stuck = NewSecure mem" "TryGet stuck = TryGet mem"
  "TryDelete stuck = TryDelete mem" "Hash stuck = Hash mem"
  "TrieCommit stuck = TrieCommit mem" "kvGet stuck = kvGet mem"
  "kvPut stuck = kvPut mem" "EncodeAccount stuck = EncodeAccount mem"
  "DecodeAccount stuck = DecodeAccount mem" "EncodeBytes stuck = EncodeBytes mem"
  "Split stuck = Split mem" "Keccak256 stuck = Keccak256 mem"
  "BytesToHash stuck = BytesToHash mem"
  "TryUpdate stuck t store addrA v = Inl ''missing trie node''"
  "TryUpdate stuck t store addrB v = TryUpdate mem t store addrB v"
  by (simp_all add: stuck_def addr_neq)


lemma mem_Hash_nonzero: "mem_Hash t \<noteq> zeroHash"
proof
  assume "mem_Hash t = zeroHash"
  then have "hd (mem_Hash t) = hd zeroHash" by simp
  then show False by (simp add: mem_Hash_def zeroHash_def)
qed

lemma mem_New: "New mem zeroHash Map.empty = Inr mem0"
  by (simp add: New_def mem_ops mem0_def)

lemma mem0_getAccount:
  "getAccount mem mem0 addr =
     (Inr (freshAccount mem), mem0\<lparr>cachedAccounts := [addr \<mapsto> freshAccount mem]\<rparr>)"
  by (simp add: getAccount_def mem_ops mem0_def bytesOf_def)

lemma mem0_overlay: "overlay mem0 addr key = None"
  by (simp add: overlay_def mem0_def)

lemma mem0_getTrie:
  "getTrie mem (mem0\<lparr>cachedAccounts := [addr \<mapsto> freshAccount mem]\<rparr>) addr =
     Inr (Inr Map.empty,
          mem0\<lparr>cachedAccounts := [addr \<mapsto> (freshAccount mem)\<lparr>storageTrie := Some Map.empty\<rparr>]\<rparr>)"
  by (simp add: getTrie_def freshAccount_def mem_ops)

lemma freshAccount_brittle: "freshAccount brittle = freshAccount mem"
  by (simp add: freshAccount_def brittle_ops)

lemma freshAccount_stuck: "freshAccount stuck = freshAccount mem"
  by (simp add: freshAccount_def stuck_ops)

lemma pendingA_eq: "pendingA = mem0\<lparr>cachedAccounts := [addrA \<mapsto> accountA]\<rparr>"
proof -
  have g: "getAccount brittle mem0 addrA =
     (Inr (freshAccount mem), mem0\<lparr>cachedAccounts := [addrA \<mapsto> freshAccount mem]\<rparr>)"
    by (simp add: getAccount_def brittle_ops mem_ops mem0_def bytesOf_def freshAccount_brittle)
  show ?thesis
    by (simp add: pendingA_def SetBalance_def g SetStorage_def getAccount_cached
          freshAccount_def accountA_def)
qed

lemma pendingA_cached: "cachedAccounts pendingA addrA = Some accountA"
  by (simp add: pendingA_eq)

lemma twoAccounts_eq:
  "twoAccounts =
     mem0\<lparr>cachedAccounts :=
            [addrB \<mapsto> (freshAccount mem)\<lparr>isDirty := True, balance := 5\<rparr>,
             addrA \<mapsto> (freshAccount mem)\<lparr>isDirty := True, balance := 1\<rparr>]\<rparr>"
proof -
  have g: "getAccount stuck mem0 addrB =
     (Inr (freshAccount mem), mem0\<lparr>cachedAccounts := [addrB \<mapsto> freshAccount mem]\<rparr>)"
    by (simp add: getAccount_def stuck_ops mem_ops mem0_def bytesOf_def freshAccount_stuck)
  have s1: "SetBalance stuck mem0 addrB 5 =
     mem0\<lparr>cachedAccounts := [addrB \<mapsto> (freshAccount mem)\<lparr>isDirty := True, balance := 5\<rparr>]\<rparr>"
    by (simp add: SetBalance_def g)
  have g2: "getAccount stuck
       (mem0\<lparr>cachedAccounts := [addrB \<mapsto> (freshAccount mem)\<lparr>isDirty := True, balance := 5\<rparr>]\<rparr>)
       addrA =
     (Inr (freshAccount mem),
      mem0\<lparr>cachedAccounts :=
             [addrB \<mapsto> (freshAccount mem)\<lparr>isDirty := True, balance := 5\<rparr>,
              addrA \<mapsto> freshAccount mem]\<rparr>)"
    by (simp add: getAccount_def stuck_ops mem_ops mem0_def bytesOf_def freshAccount_stuck
          addr_neq)
  show ?thesis
    unfolding twoAccounts_def s1 by (simp add: SetBalance_def g2)
qed

subsection \<open>Facts about the walk of \<^verbatim>\<open>Root\<close>\<close>

lemma through_Some:
  "cachedAccounts s addr = Some a \<Longrightarrow>
   through addr f s = s\<lparr>cachedAccounts := (cachedAccounts s)(addr \<mapsto> f a)\<rparr>"
  by (simp add: through_def)

lemma through_sel:
  "kv (through addr f s) = kv s" "trie (through addr f s) = trie s"
  "err (through addr f s) = err s"
  by (simp_all add: through_def split: option.splits)

lemma through_other:
  "y \<noteq> addr \<Longrightarrow> cachedAccounts (through addr f s) y = cachedAccounts s y"
  by (simp add: through_def split: option.splits)

lemma cached_upd_triv:
  "cachedAccounts s addr = Some a \<Longrightarrow> s\<lparr>cachedAccounts := (cachedAccounts s)(addr \<mapsto> a)\<rparr> = s"
  by (simp add: map_upd_triv)

lemma storageTrie_upd_triv: "storageTrie a = Some st \<Longrightarrow> a\<lparr>storageTrie := Some st\<rparr> = a"
  by (cases a) simp

lemma getTrie_Inr:
  assumes "getTrie d s addr = Inr (Inr st, s1)" and "cachedAccounts s addr = Some a"
  shows "s1 = s\<lparr>cachedAccounts := (cachedAccounts s)(addr \<mapsto> a\<lparr>storageTrie := Some st\<rparr>)\<rparr>"
    and "storageTrie a = Some st \<or> (storageTrie a = None \<and> NewSecure d (storageRoot a) (kv s) = Inr st)"
  using assms by (auto simp: getTrie_def storageTrie_upd_triv cached_upd_triv split: option.splits sum.splits)

lemma getTrie_Inl:
  "getTrie d s addr = Inr (Inl e, s1) \<Longrightarrow> s1 = s"
  by (auto simp: getTrie_def split: option.splits sum.splits)

lemma getTrie_cached_no_panic:
  "cachedAccounts s addr = Some a \<Longrightarrow> getTrie d s addr \<noteq> Inl p"
  by (auto simp: getTrie_def split: option.splits sum.splits)

lemma updateStorage_loop_Some:
  assumes "updateStorage_loop d addr st s keys = (Some st', s')"
    and "cachedAccounts s addr = Some a" and "storageTrie a = Some st"
  shows "s' = s\<lparr>cachedAccounts := (cachedAccounts s)
               (addr \<mapsto> a\<lparr>storageTrie := Some st', storage := storage a |` (- set keys)\<rparr>)\<rparr>"
  using assms
proof (induction keys arbitrary: st s a)
  case Nil
  have e: "st' = st" "s' = s" using Nil.prems(1) by simp_all
  have a_eq: "a\<lparr>storageTrie := Some st', storage := storage a |` (- set [])\<rparr> = a"
    using Nil.prems(3) e by (cases a) (simp add: restrict_map_def)
  show ?case
    unfolding a_eq e(2) by (rule cached_upd_triv [OF Nil.prems(2), symmetric])
next
  case (Cons key keys)
  show ?case
  proof (cases "storage a key")
    case None
    then have o: "overlay s addr key = None" using Cons.prems(2) by (simp add: overlay_def)
    have l: "updateStorage_loop d addr st s keys = (Some st', s')"
      using Cons.prems(1) o by simp
    have r: "storage a |` (- set (key # keys)) = storage a |` (- set keys)"
      using None by (auto simp: restrict_map_def fun_eq_iff)
    show ?thesis
      using Cons.IH [OF l Cons.prems(2,3)] by (simp only: r)
  next
    case (Some v)
    then have o: "overlay s addr key = Some v" using Cons.prems(2) by (simp add: overlay_def)
    obtain st1 where u: "TryUpdate d st (kv s) key (EncodeBytes d (TrimLeft v)) = Inr st1"
      using Cons.prems(1) o
      by (cases "TryUpdate d st (kv s) key (EncodeBytes d (TrimLeft v))") auto
    let ?a1 = "a\<lparr>storageTrie := Some st1, storage := (storage a)(key := None)\<rparr>"
    let ?s1 = "s\<lparr>cachedAccounts := (cachedAccounts s)(addr \<mapsto> ?a1)\<rparr>"
    have t: "through addr (\<lambda>a. a\<lparr>storageTrie := Some st1, storage := (storage a)(key := None)\<rparr>) s = ?s1"
      using Cons.prems(2) by (simp add: through_Some)
    have l: "updateStorage_loop d addr st1 ?s1 keys = (Some st', s')"
      using Cons.prems(1) o u t by simp
    have c: "cachedAccounts ?s1 addr = Some ?a1" by simp
    have c3: "storageTrie ?a1 = Some st1" by simp
    have r: "(storage a)(key := None) |` (- set keys) = storage a |` (- set (key # keys))"
      by (auto simp: restrict_map_def fun_eq_iff)
    have ih: "s' = ?s1\<lparr>cachedAccounts := (cachedAccounts ?s1)
               (addr \<mapsto> ?a1\<lparr>storageTrie := Some st', storage := storage ?a1 |` (- set keys)\<rparr>)\<rparr>"
      by (rule Cons.IH [OF l c c3])
    have a2: "?a1\<lparr>storageTrie := Some st', storage := storage ?a1 |` (- set keys)\<rparr>
               = a\<lparr>storageTrie := Some st', storage := storage a |` (- set (key # keys))\<rparr>"
      using r by simp
    have s2: "\<And>x. ?s1\<lparr>cachedAccounts := (cachedAccounts ?s1)(addr \<mapsto> x)\<rparr>
               = s\<lparr>cachedAccounts := (cachedAccounts s)(addr \<mapsto> x)\<rparr>"
      by simp
    show ?thesis
      unfolding ih a2 s2 by (rule refl)
  qed
qed

lemma updateStorage_loop_kv: "kv (snd (updateStorage_loop d addr st s keys)) = kv s"
proof (induction keys arbitrary: st s)
  case Nil show ?case by simp
next
  case (Cons key keys)
  show ?case
    by (auto simp: Cons.IH through_sel split: option.splits sum.splits)
qed

lemma getTrie_kv: "getTrie d s addr = Inr (r, s1) \<Longrightarrow> kv s1 = kv s"
  by (auto simp: getTrie_def split: option.splits sum.splits)

lemma updateStorage_kv: "updateStorage d keys s addr = Inr (r, s1) \<Longrightarrow> kv s1 = kv s"
  using updateStorage_loop_kv [of d addr _ _ keys]
  by (auto simp: updateStorage_def split: sum.splits prod.splits dest!: getTrie_kv)
     (metis snd_conv)

lemma Root_storage_kv: "pred_flow (\<lambda>s'. kv s' = kv s) (Root_storage d keys s addr)"
  by (auto simp: Root_storage_def through_sel split: sum.splits prod.splits option.splits
      dest: updateStorage_kv)

lemma updateAccount_kv: "kv (snd (updateAccount d s addr a)) = kv s"
  by (auto simp: updateAccount_def Let_def split: sum.splits)

lemma Root_dirty_kv: "pred_flow (\<lambda>s'. kv s' = kv s) (Root_dirty d s addr)"
  using updateAccount_kv [of d s addr]
  by (auto simp: Root_dirty_def through_sel split: option.splits prod.splits) (metis snd_conv)+

lemma Delete_kv: "kv (Delete d s addr) = kv s"
  by (auto simp: Delete_def Let_def split: sum.splits)

lemma Root_account_kv: "pred_flow (\<lambda>s'. kv s' = kv s) (Root_account d keys s addr a)"
proof (cases "isEmpty a")
  case True
  then show ?thesis by (simp add: Root_account_def Delete_kv)
next
  case False
  show ?thesis
  proof (cases "storageStep a = storageSet")
    case True
    show ?thesis
    proof (cases "Root_storage d keys s addr")
      case (Continue s1)
      then have "kv s1 = kv s" using Root_storage_kv [of s d keys addr] by simp
      then show ?thesis
        using Root_dirty_kv [of s1 d addr] Continue \<open>\<not> isEmpty a\<close> True
        by (simp add: Root_account_def)
    next
      case (Return s1)
      then have "kv s1 = kv s" using Root_storage_kv [of s d keys addr] by simp
      then show ?thesis using Return \<open>\<not> isEmpty a\<close> True by (simp add: Root_account_def)
    next
      case Panicked
      then show ?thesis using \<open>\<not> isEmpty a\<close> True by (simp add: Root_account_def)
    qed
  next
    case False
    then show ?thesis
      using Root_dirty_kv [of s d addr] \<open>\<not> isEmpty a\<close> by (simp add: Root_account_def)
  qed
qed

lemma Root_loop_kv: "pred_flow (\<lambda>s'. kv s' = kv s) (Root_loop d ko ao s)"
proof (induction ao arbitrary: s)
  case Nil show ?case by simp
next
  case (Cons x ao)
  show ?case
  proof (cases "cachedAccounts s x")
    case None then show ?thesis using Cons.IH by simp
  next
    case (Some a)
    show ?thesis
    proof (cases "Root_account d (ko x) s x a")
      case (Continue s1)
      then have "kv s1 = kv s" using Root_account_kv [of s d "ko x" x a] by simp
      then show ?thesis using Cons.IH [of s1] Some Continue by simp
    next
      case (Return s1)
      then have "kv s1 = kv s" using Root_account_kv [of s d "ko x" x a] by simp
      then show ?thesis using Some Return by simp
    next
      case Panicked then show ?thesis using Some by simp
    qed
  qed
qed

lemma Root_kv: "Root d ao ko s = Inr (h, s1) \<Longrightarrow> kv s1 = kv s"
  using Root_loop_kv [of s d ko ao]
  by (auto simp: Root_def split: flow.splits)

lemma pushAll_cong:
  "(\<And>k. k \<in> set keys \<Longrightarrow> m k = m' k) \<Longrightarrow> pushAll d store m keys st = pushAll d store m' keys st"
  by (induction keys arbitrary: st) (auto split: option.splits sum.splits)

lemma updateStorage_loop_pushAll:
  assumes "updateStorage_loop d addr st s keys = (Some st', s')"
    and "cachedAccounts s addr = Some a" and "distinct keys"
  shows "pushAll d (kv s) (storage a) keys st = Some st'"
  using assms
proof (induction keys arbitrary: st s a)
  case Nil
  then show ?case by simp
next
  case (Cons key keys)
  show ?case
  proof (cases "storage a key")
    case None
    then have o: "overlay s addr key = None" using Cons.prems(2) by (simp add: overlay_def)
    have l: "updateStorage_loop d addr st s keys = (Some st', s')"
      using Cons.prems(1) o by simp
    show ?thesis
      using Cons.IH [OF l Cons.prems(2)] Cons.prems(3) None by simp
  next
    case (Some v)
    then have o: "overlay s addr key = Some v" using Cons.prems(2) by (simp add: overlay_def)
    obtain st1 where u: "TryUpdate d st (kv s) key (EncodeBytes d (TrimLeft v)) = Inr st1"
      using Cons.prems(1) o
      by (cases "TryUpdate d st (kv s) key (EncodeBytes d (TrimLeft v))") auto
    let ?a1 = "a\<lparr>storageTrie := Some st1, storage := (storage a)(key := None)\<rparr>"
    let ?s1 = "s\<lparr>cachedAccounts := (cachedAccounts s)(addr \<mapsto> ?a1)\<rparr>"
    have t: "through addr (\<lambda>a. a\<lparr>storageTrie := Some st1, storage := (storage a)(key := None)\<rparr>) s = ?s1"
      using Cons.prems(2) by (simp add: through_Some)
    have l: "updateStorage_loop d addr st1 ?s1 keys = (Some st', s')"
      using Cons.prems(1) o u t by simp
    have c: "cachedAccounts ?s1 addr = Some ?a1" by simp
    have d: "distinct keys" using Cons.prems(3) by simp
    have sa: "storage ?a1 = (storage a)(key := None)" by simp
    have ks: "kv ?s1 = kv s" by simp
    have ih: "pushAll d (kv s) ((storage a)(key := None)) keys st1 = Some st'"
      using Cons.IH [OF l c d] unfolding sa ks .
    have "pushAll d (kv s) ((storage a)(key := None)) keys st1 = pushAll d (kv s) (storage a) keys st1"
      using Cons.prems(3) by (intro pushAll_cong) auto
    then have "pushAll d (kv s) (storage a) keys st1 = Some st'" using ih by simp
    then show ?thesis using Some u by simp
  qed
qed

lemma Root_storage_Continue:
  assumes "Root_storage d keys s addr = Continue s'" and "cachedAccounts s addr = Some a"
  shows "\<exists>st0 st'.
     (storageTrie a = Some st0 \<or> (storageTrie a = None \<and> NewSecure d (storageRoot a) (kv s) = Inr st0)) \<and>
     (distinct keys \<longrightarrow> pushAll d (kv s) (storage a) keys st0 = Some st') \<and>
     s' = s\<lparr>cachedAccounts := (cachedAccounts s)
             (addr \<mapsto> a\<lparr>storageTrie := Some st', storage := storage a |` (- set keys),
                        storageRoot := Hash d st', isDirty := True,
                        storageStep := storageUpdated\<rparr>)\<rparr>"
proof -
  obtain st' s1 where u: "updateStorage d keys s addr = Inr (Inr (Some st'), s1)"
    and s': "s' = through addr (\<lambda>a. a\<lparr>storageRoot := Hash d st', isDirty := True,
                      storageStep := storageUpdated\<rparr>) s1"
    using assms(1)
    by (auto simp: Root_storage_def split: sum.splits prod.splits option.splits)
  obtain st0 s0 where g: "getTrie d s addr = Inr (Inr st0, s0)"
    and l: "updateStorage_loop d addr st0 s0 keys = (Some st', s1)"
    using u by (auto simp: updateStorage_def split: sum.splits prod.splits)
  let ?a0 = "a\<lparr>storageTrie := Some st0\<rparr>"
  have s0: "s0 = s\<lparr>cachedAccounts := (cachedAccounts s)(addr \<mapsto> ?a0)\<rparr>"
    by (rule getTrie_Inr(1) [OF g assms(2)])
  have c0: "cachedAccounts s0 addr = Some ?a0" by (simp add: s0)
  have k0: "kv s0 = kv s" by (simp add: s0)
  have s1: "s1 = s0\<lparr>cachedAccounts := (cachedAccounts s0)
               (addr \<mapsto> ?a0\<lparr>storageTrie := Some st', storage := storage ?a0 |` (- set keys)\<rparr>)\<rparr>"
    by (rule updateStorage_loop_Some [OF l c0]) simp
  have p: "distinct keys \<longrightarrow> pushAll d (kv s) (storage a) keys st0 = Some st'"
    using updateStorage_loop_pushAll [OF l c0] k0 by simp
  have "s' = s\<lparr>cachedAccounts := (cachedAccounts s)
             (addr \<mapsto> a\<lparr>storageTrie := Some st', storage := storage a |` (- set keys),
                        storageRoot := Hash d st', isDirty := True,
                        storageStep := storageUpdated\<rparr>)\<rparr>"
    unfolding s' s1 s0 by (simp add: through_def)
  then show ?thesis
    using getTrie_Inr(2) [OF g assms(2)] p by blast
qed

lemma Root_dirty_Continue:
  assumes "Root_dirty d s addr = Continue s'" and "cachedAccounts s addr = Some a"
  shows "if isDirty a then
           (\<exists>enc t. EncodeAccount d \<lparr>Balance = balance a, CodeHash = codeHash a,
                                     StorageRoot = storageRoot a\<rparr> = Inr enc \<and>
                    TryUpdate d (trie s) (kv s) addr enc = Inr t \<and>
                    s' = s\<lparr>trie := t, cachedAccounts := (cachedAccounts s)(addr \<mapsto> a\<lparr>isDirty := False\<rparr>)\<rparr>)
         else s' = s"
  using assms
  by (auto simp: Root_dirty_def updateAccount_def Let_def through_def
      split: sum.splits prod.splits option.splits if_splits)

lemma Delete_sel:
  "cachedAccounts (Delete d s x) = (cachedAccounts s)(x := None)"
  by (auto simp: Delete_def Let_def split: sum.splits)

lemma Root_account_empty:
  "isEmpty a \<Longrightarrow> Root_account d keys s x a = Continue (Delete d s x)"
  by (simp add: Root_account_def)

lemma Root_account_Pending:
  assumes "Root_account d keys s x a = Continue s'" and "cachedAccounts s x = Some a"
    and "\<not> isEmpty a" and "storageStep a = storageSet"
  shows "\<exists>st0 st' enc t.
     (storageTrie a = Some st0 \<or> (storageTrie a = None \<and> NewSecure d (storageRoot a) (kv s) = Inr st0)) \<and>
     (distinct keys \<longrightarrow> pushAll d (kv s) (storage a) keys st0 = Some st') \<and>
     EncodeAccount d \<lparr>Balance = balance a, CodeHash = codeHash a, StorageRoot = Hash d st'\<rparr> = Inr enc \<and>
     TryUpdate d (trie s) (kv s) x enc = Inr t \<and>
     s' = s\<lparr>trie := t, cachedAccounts := (cachedAccounts s)
             (x \<mapsto> a\<lparr>storageTrie := Some st', storage := storage a |` (- set keys),
                        storageRoot := Hash d st', isDirty := False,
                        storageStep := storageUpdated\<rparr>)\<rparr>"
proof -
  obtain s1 where rs: "Root_storage d keys s x = Continue s1" and rd: "Root_dirty d s1 x = Continue s'"
    using assms(1,3,4) by (auto simp: Root_account_def split: flow.splits)
  obtain st0 st' where o: "storageTrie a = Some st0 \<or> (storageTrie a = None \<and> NewSecure d (storageRoot a) (kv s) = Inr st0)"
    and p: "distinct keys \<longrightarrow> pushAll d (kv s) (storage a) keys st0 = Some st'"
    and s1: "s1 = s\<lparr>cachedAccounts := (cachedAccounts s)
             (x \<mapsto> a\<lparr>storageTrie := Some st', storage := storage a |` (- set keys),
                        storageRoot := Hash d st', isDirty := True,
                        storageStep := storageUpdated\<rparr>)\<rparr>"
    using Root_storage_Continue [OF rs assms(2)] by blast
  let ?a1 = "a\<lparr>storageTrie := Some st', storage := storage a |` (- set keys),
                        storageRoot := Hash d st', isDirty := True,
                        storageStep := storageUpdated\<rparr>"
  have c1: "cachedAccounts s1 x = Some ?a1" by (simp add: s1)
  have "\<exists>enc t. EncodeAccount d \<lparr>Balance = balance ?a1, CodeHash = codeHash ?a1,
                                     StorageRoot = storageRoot ?a1\<rparr> = Inr enc \<and>
                    TryUpdate d (trie s1) (kv s1) x enc = Inr t \<and>
                    s' = s1\<lparr>trie := t, cachedAccounts := (cachedAccounts s1)(x \<mapsto> ?a1\<lparr>isDirty := False\<rparr>)\<rparr>"
    using Root_dirty_Continue [OF rd c1] by simp
  then obtain enc t where e: "EncodeAccount d \<lparr>Balance = balance a, CodeHash = codeHash a, StorageRoot = Hash d st'\<rparr> = Inr enc"
    and u: "TryUpdate d (trie s1) (kv s1) x enc = Inr t"
    and s': "s' = s1\<lparr>trie := t, cachedAccounts := (cachedAccounts s1)(x \<mapsto> ?a1\<lparr>isDirty := False\<rparr>)\<rparr>"
    by auto
  have u': "TryUpdate d (trie s) (kv s) x enc = Inr t" using u by (simp add: s1)
  have "s' = s\<lparr>trie := t, cachedAccounts := (cachedAccounts s)
             (x \<mapsto> a\<lparr>storageTrie := Some st', storage := storage a |` (- set keys),
                        storageRoot := Hash d st', isDirty := False,
                        storageStep := storageUpdated\<rparr>)\<rparr>"
    unfolding s' s1 by (cases a) simp
  then show ?thesis using o p e u' by blast
qed

lemma Root_account_other:
  assumes "Root_account d keys s x a = Continue s'" and "cachedAccounts s x = Some a"
    and "\<not> isEmpty a" and "storageStep a \<noteq> storageSet"
  shows "if isDirty a then
           (\<exists>enc t. EncodeAccount d \<lparr>Balance = balance a, CodeHash = codeHash a,
                                     StorageRoot = storageRoot a\<rparr> = Inr enc \<and>
                    TryUpdate d (trie s) (kv s) x enc = Inr t \<and>
                    s' = s\<lparr>trie := t, cachedAccounts := (cachedAccounts s)(x \<mapsto> a\<lparr>isDirty := False\<rparr>)\<rparr>)
         else s' = s"
proof -
  have "Root_dirty d s x = Continue s'"
    using assms(1,3,4) by (simp add: Root_account_def)
  then show ?thesis by (rule Root_dirty_Continue [OF _ assms(2)])
qed

lemma Root_account_frame:
  assumes "Root_account d keys s x a = Continue s'" and "cachedAccounts s x = Some a"
    and "y \<noteq> x"
  shows "cachedAccounts s' y = cachedAccounts s y"
proof (cases "isEmpty a")
  case True
  then have "s' = Delete d s x" using assms(1) by (simp add: Root_account_empty)
  then show ?thesis using assms(3) by (simp add: Delete_sel)
next
  case False
  show ?thesis
  proof (cases "storageStep a = storageSet")
    case True
    show ?thesis
      using Root_account_Pending [OF assms(1,2) False True] assms(3) by auto
  next
    case False2: False
    show ?thesis
      using Root_account_other [OF assms(1,2) False False2] assms(3)
      by (auto split: if_splits)
  qed
qed

lemma Root_account_settles:
  assumes "Root_account d keys s x a = Continue s'" and "cachedAccounts s x = Some a"
  shows "if isEmpty a then cachedAccounts s' x = None
         else (\<exists>a'. cachedAccounts s' x = Some a' \<and> settled a')"
proof (cases "isEmpty a")
  case True
  then have "s' = Delete d s x" using assms(1) by (simp add: Root_account_empty)
  then show ?thesis using True by (simp add: Delete_sel)
next
  case False
  show ?thesis
  proof (cases "storageStep a = storageSet")
    case True
    show ?thesis
      using Root_account_Pending [OF assms(1,2) False True] False
      by (auto simp: settled_def isEmpty_def)
  next
    case False2: False
    show ?thesis
      using Root_account_other [OF assms(1,2) False False2] False False2 assms(2)
      by (auto simp: settled_def isEmpty_def split: if_splits)
  qed
qed

lemma Root_account_settled:
  "settled a \<Longrightarrow> cachedAccounts s x = Some a \<Longrightarrow> Root_account d keys s x a = Continue s"
  by (simp add: Root_account_def settled_def Root_dirty_def)

lemma Root_loop_settled:
  "(\<And>x a. cachedAccounts s x = Some a \<Longrightarrow> settled a) \<Longrightarrow> Root_loop d ko ao s = Continue s"
  by (induction ao) (auto simp: Root_account_settled split: option.splits)

lemma Root_loop_settles:
  assumes "Root_loop d ko ao s = Continue s1"
    and "\<And>x a. cachedAccounts s x = Some a \<Longrightarrow> x \<in> set ao \<or> settled a"
    and "cachedAccounts s1 y = Some b"
  shows "settled b"
  using assms
proof (induction ao arbitrary: s)
  case Nil
  then show ?case by auto
next
  case (Cons x ao)
  show ?case
  proof (cases "cachedAccounts s x")
    case None
    then have l: "Root_loop d ko ao s = Continue s1" using Cons.prems(1) by simp
    have "\<And>z a. cachedAccounts s z = Some a \<Longrightarrow> z \<in> set ao \<or> settled a"
      using Cons.prems(2) None by fastforce
    then show ?thesis using Cons.IH [OF l _ Cons.prems(3)] by blast
  next
    case (Some a)
    then obtain s' where r: "Root_account d (ko x) s x a = Continue s'"
      and l: "Root_loop d ko ao s' = Continue s1"
      using Cons.prems(1) by (auto split: flow.splits)
    have "\<And>z c. cachedAccounts s' z = Some c \<Longrightarrow> z \<in> set ao \<or> settled c"
    proof -
      fix z c assume c: "cachedAccounts s' z = Some c"
      show "z \<in> set ao \<or> settled c"
      proof (cases "z = x")
        case True
        then show ?thesis
          using Root_account_settles [OF r Some] c by (auto split: if_splits)
      next
        case False
        then have "cachedAccounts s z = Some c"
          using Root_account_frame [OF r Some False] c by simp
        then show ?thesis using Cons.prems(2) False by fastforce
      qed
    qed
    then show ?thesis using Cons.IH [OF l _ Cons.prems(3)] by blast
  qed
qed


lemma Root_loop_frame:
  assumes "Root_loop d ko ao s = Continue s1" and "x \<notin> set ao"
  shows "cachedAccounts s1 x = cachedAccounts s x"
  using assms
proof (induction ao arbitrary: s)
  case Nil
  then show ?case by simp
next
  case (Cons y ao)
  show ?case
  proof (cases "cachedAccounts s y")
    case None
    then show ?thesis using Cons by simp
  next
    case (Some a)
    then obtain s' where r: "Root_account d (ko y) s y a = Continue s'"
      and l: "Root_loop d ko ao s' = Continue s1"
      using Cons.prems(1) by (auto split: flow.splits)
    have "x \<noteq> y" using Cons.prems(2) by auto
    then have "cachedAccounts s' x = cachedAccounts s x"
      by (rule Root_account_frame [OF r Some])
    then show ?thesis using Cons.IH [OF l] Cons.prems(2) by simp
  qed
qed

lemma Root_account_Continue_kv:
  "Root_account d keys s x a = Continue s' \<Longrightarrow> kv s' = kv s"
  using Root_account_kv [of s d keys x a] by simp

lemma Root_loop_at:
  assumes "Root_loop d ko ao s = Continue s1" and "distinct ao" and "x \<in> set ao"
    and "cachedAccounts s x = Some a"
  shows "\<exists>sm sa. kv sm = kv s \<and> cachedAccounts sm x = Some a \<and>
           Root_account d (ko x) sm x a = Continue sa \<and>
           cachedAccounts s1 x = cachedAccounts sa x"
  using assms
proof (induction ao arbitrary: s)
  case Nil
  then show ?case by simp
next
  case (Cons y ao)
  show ?case
  proof (cases "y = x")
    case True
    obtain s' where r: "Root_account d (ko x) s x a = Continue s'"
      and l: "Root_loop d ko ao s' = Continue s1"
      using Cons.prems(1,4) True by (auto split: flow.splits)
    have "x \<notin> set ao" using Cons.prems(2) True by simp
    then have "cachedAccounts s1 x = cachedAccounts s' x"
      by (rule Root_loop_frame [OF l])
    then show ?thesis using r Cons.prems(4) by blast
  next
    case False
    then have x: "x \<in> set ao" using Cons.prems(3) by simp
    have dd: "distinct ao" using Cons.prems(2) by simp
    show ?thesis
    proof (cases "cachedAccounts s y")
      case None
      then have l: "Root_loop d ko ao s = Continue s1" using Cons.prems(1) by simp
      show ?thesis by (rule Cons.IH [OF l dd x Cons.prems(4)])
    next
      case (Some b)
      then obtain s' where r: "Root_account d (ko y) s y b = Continue s'"
        and l: "Root_loop d ko ao s' = Continue s1"
        using Cons.prems(1) by (auto split: flow.splits)
      have c: "cachedAccounts s' x = Some a"
        using Root_account_frame [OF r Some, of x] False Cons.prems(4) by simp
      have k: "kv s' = kv s" by (rule Root_account_Continue_kv [OF r])
      show ?thesis using Cons.IH [OF l dd x c] k by auto
    qed
  qed
qed


lemma Root_loop_prunes:
  assumes "Root_loop d ko ao s = Continue s1" and "iterates (cachedAccounts s) ao"
    and "cachedAccounts s x = Some a" and "isEmpty a"
  shows "cachedAccounts s1 x = None"
proof -
  have dd: "distinct ao" and x: "x \<in> set ao"
    using assms(2,3) by (auto simp: iterates_def)
  obtain sm sa where c: "cachedAccounts sm x = Some a"
    and r: "Root_account d (ko x) sm x a = Continue sa"
    and e: "cachedAccounts s1 x = cachedAccounts sa x"
    using Root_loop_at [OF assms(1) dd x assms(3)] by blast
  show ?thesis using Root_account_settles [OF r c] assms(4) e by simp
qed


subsection \<open>Facts about the walk of \<^verbatim>\<open>Commit\<close> and evaluations\<close>

lemma getTrie_None:
  "getTrie d s y = Inr (r, s1) \<Longrightarrow> cachedAccounts s x = None \<Longrightarrow> cachedAccounts s1 x = None"
  by (auto simp: getTrie_def split: option.splits sum.splits if_splits)

lemma through_None:
  "cachedAccounts s x = None \<Longrightarrow> cachedAccounts (through y f s) x = None"
  by (auto simp: through_def split: option.splits)

lemma Commit_account_None:
  assumes "cachedAccounts s x = None"
  shows "pred_flow (\<lambda>s'. cachedAccounts s' x = None) (Commit_account d s y a)"
proof (cases "storageStep a = storageUpdated")
  case False
  then show ?thesis using assms by (simp add: Commit_account_def)
next
  case True
  show ?thesis
  proof (cases "getTrie d s y")
    case (Inl p)
    then show ?thesis using True by (simp add: Commit_account_def)
  next
    case (Inr r)
    obtain res s1 where r: "r = (res, s1)" by (cases r)
    have n: "cachedAccounts s1 x = None"
      using getTrie_None [of d s y res s1 x] Inr r assms by simp
    show ?thesis
    proof (cases res)
      case (Inl e)
      then show ?thesis using True Inr r n by (simp add: Commit_account_def)
    next
      case (Inr st)
      obtain rr st' store where c: "TrieCommit d st (kv s1) = (rr, st', store)"
        by (cases "TrieCommit d st (kv s1)")
      have "cachedAccounts (through y (\<lambda>a. a\<lparr>storageTrie := Some st'\<rparr>) (s1\<lparr>kv := store\<rparr>)) x = None"
        using n by (intro through_None) simp
      then show ?thesis
        using True \<open>getTrie d s y = Inr r\<close> r Inr c
        by (cases rr) (simp_all add: Commit_account_def Let_def)
    qed
  qed
qed

lemma Commit_loop_None:
  assumes "cachedAccounts s x = None"
  shows "pred_flow (\<lambda>s'. cachedAccounts s' x = None) (Commit_loop d co s)"
  using assms
proof (induction co arbitrary: s)
  case Nil
  then show ?case by simp
next
  case (Cons y co)
  show ?case
  proof (cases "cachedAccounts s y")
    case None
    then show ?thesis using Cons by simp
  next
    case (Some a)
    show ?thesis
    proof (cases "Commit_account d s y a")
      case (Continue s1)
      then have "cachedAccounts s1 x = None"
        using Commit_account_None [OF Cons.prems, of d y a] by simp
      then show ?thesis using Cons.IH [of s1] Some Continue by simp
    next
      case (Return s1)
      then have "cachedAccounts s1 x = None"
        using Commit_account_None [OF Cons.prems, of d y a] by simp
      then show ?thesis using Some Return by simp
    next
      case Panicked
      then show ?thesis using Some by simp
    qed
  qed
qed

lemma Commit_None:
  assumes "Root_loop d ko ao s = Continue s1" and "cachedAccounts s1 x = None"
    and "Commit d ao ko co s = Inr (h, s2)"
  shows "cachedAccounts s2 x = None"
proof -
  have r: "Root d ao ko s = Inr (Hash d (trie s1), s1)"
    using assms(1) by (simp add: Root_def)
  show ?thesis
  proof (cases "Commit_loop d co s1")
    case (Continue s3)
    then have "cachedAccounts s3 x = None"
      using Commit_loop_None [OF assms(2), of d co] by simp
    then show ?thesis
      using assms(3) r Continue
      by (auto simp: Commit_def split: prod.splits sum.splits)
  next
    case (Return s3)
    then have "cachedAccounts s3 x = None"
      using Commit_loop_None [OF assms(2), of d co] by simp
    then show ?thesis
      using assms(3) r Return by (auto simp: Commit_def)
  next
    case Panicked
    then show ?thesis using assms(3) r by (simp add: Commit_def)
  qed
qed

lemma isEmpty_fresh: "isEmpty (freshAccount d)"
  by (simp add: isEmpty_def freshAccount_def)

lemma GetStorage_cached:
  assumes "getAccount d s addr = (Inr a, s1)"
  shows "case GetStorage d s addr key of
           Inr (v, s2) \<Rightarrow> cachedAccounts s2 addr \<noteq> None
         | Inl p \<Rightarrow> False"
proof -
  have c: "cachedAccounts s1 addr = Some a" using assms by (rule getAccount_Inr_cached)
  show ?thesis
  proof (cases "overlay s addr key")
    case (Some v)
    then show ?thesis by (auto simp: GetStorage_def overlay_def split: option.splits)
  next
    case None
    show ?thesis
      using c None assms
      by (auto simp: GetStorage_def getTrie_def through_def Let_def
          split: option.splits sum.splits prod.splits)
  qed
qed


lemma TrimLeft_val7: "TrimLeft val7 = [7]"
  by (simp add: TrimLeft_def val7_def)

lemma iterates_single: "m = [k \<mapsto> v] \<Longrightarrow> iterates m [k]"
  by (auto simp: iterates_def split: if_splits)


lemma Root_loop_pendingA:
  "Root_loop mem (\<lambda>a. [key1]) [addrA] pendingA = Continue flushedA"
  by (simp add: pendingA_eq flushedA_def accountA_def Root_account_def isEmpty_def
       freshAccount_def Root_storage_def updateStorage_def getTrie_def mem_ops overlay_def
       through_def TrimLeft_val7 mem_EncodeBytes_def Root_dirty_def updateAccount_def
       mem_EncodeAccount_def mem0_def)

lemma pendingA_facts:
  "storageStep accountA = storageSet" "\<not> isEmpty accountA"
  "iterates (storage accountA) [key1]" "iterates (cachedAccounts pendingA) [addrA]"
  by (simp_all add: accountA_def isEmpty_def pendingA_eq iterates_single)

subsection \<open>Absence from the account trie\<close>

lemma Delete_cases:
  "(\<exists>t. TryDelete d (trie s) (kv s) x = Inr t \<and>
        Delete d s x = s\<lparr>cachedAccounts := (cachedAccounts s)(x := None), trie := t\<rparr>) \<or>
   (\<exists>e. TryDelete d (trie s) (kv s) x = Inl e \<and>
        Delete d s x = s\<lparr>cachedAccounts := (cachedAccounts s)(x := None), err := Some e\<rparr>)"
  by (cases "TryDelete d (trie s) (kv s) x") (simp_all add: Delete_def Let_def)

text \<open>What one step of the walk does to the account trie and to the fault flag.\<close>

lemma Root_account_trie:
  assumes "Root_account d keys s y b = Continue s'" and "cachedAccounts s y = Some b"
  shows "kv s' = kv s \<and>
         ((trie s' = trie s \<and> (err s' = None \<longrightarrow> err s = None \<and> \<not> isEmpty b)) \<or>
          (err s' = err s \<and> TryDelete d (trie s) (kv s) y = Inr (trie s') \<and> isEmpty b) \<or>
          (err s' = err s \<and> \<not> isEmpty b \<and> (\<exists>enc. TryUpdate d (trie s) (kv s) y enc = Inr (trie s'))))"
proof (cases "isEmpty b")
  case True
  then have s': "s' = Delete d s y" using assms(1) by (simp add: Root_account_empty)
  show ?thesis
    using Delete_cases [of d s y] True unfolding s' by auto
next
  case False
  show ?thesis
  proof (cases "storageStep b = storageSet")
    case True
    show ?thesis
      using Root_account_Pending [OF assms False True] False by auto
  next
    case False2: False
    show ?thesis
      using Root_account_other [OF assms False False2] False
      by (auto split: if_splits)
  qed
qed

lemma Root_account_err:
  assumes "Root_account d keys s y b = Continue s'" and "cachedAccounts s y = Some b"
    and "err s' = None"
  shows "err s = None"
  using Root_account_trie [OF assms(1,2)] assms(3) by auto

lemma Root_loop_err:
  assumes "Root_loop d ko ao s = Continue s1" and "err s1 = None"
  shows "err s = None"
  using assms
proof (induction ao arbitrary: s)
  case Nil
  then show ?case by simp
next
  case (Cons y ao)
  show ?case
  proof (cases "cachedAccounts s y")
    case None
    then show ?thesis using Cons by simp
  next
    case (Some b)
    then obtain s' where r: "Root_account d (ko y) s y b = Continue s'"
      and l: "Root_loop d ko ao s' = Continue s1"
      using Cons.prems(1) by (auto split: flow.splits)
    have "err s' = None" by (rule Cons.IH [OF l Cons.prems(2)])
    then show ?thesis by (rule Root_account_err [OF r Some])
  qed
qed

lemma Root_account_absent:
  assumes "deletion_laws d" and "Root_account d keys s y b = Continue s'"
    and "cachedAccounts s y = Some b" and "y \<noteq> x" and "absent d (trie s) (kv s) x"
  shows "absent d (trie s') (kv s') x"
proof -
  have k: "kv s' = kv s" using Root_account_trie [OF assms(2,3)] by simp
  consider "trie s' = trie s"
    | "TryDelete d (trie s) (kv s) y = Inr (trie s')"
    | enc where "TryUpdate d (trie s) (kv s) y enc = Inr (trie s')"
    using Root_account_trie [OF assms(2,3)] by auto
  then show ?thesis
  proof cases
    case 1
    then show ?thesis using assms(5) k by simp
  next
    case 2
    then show ?thesis using assms(1,4,5) k unfolding deletion_laws_def by metis
  next
    case 3
    then show ?thesis using assms(1,4,5) k unfolding deletion_laws_def by metis
  qed
qed

lemma Root_loop_absent:
  assumes "deletion_laws d" and "Root_loop d ko ao s = Continue s1" and "err s1 = None"
    and "distinct ao"
    and "(x \<in> set ao \<and> (\<exists>a. cachedAccounts s x = Some a \<and> isEmpty a)) \<or>
         (x \<notin> set ao \<and> absent d (trie s) (kv s) x)"
  shows "absent d (trie s1) (kv s1) x"
  using assms(2-)
proof (induction ao arbitrary: s)
  case Nil
  then show ?case by simp
next
  case (Cons y ao)
  have dd: "distinct ao" and yn: "y \<notin> set ao" using Cons.prems(3) by simp_all
  show ?case
  proof (cases "cachedAccounts s y")
    case None
    then have l: "Root_loop d ko ao s = Continue s1" using Cons.prems(1) by simp
    have "(x \<in> set ao \<and> (\<exists>a. cachedAccounts s x = Some a \<and> isEmpty a)) \<or>
         (x \<notin> set ao \<and> absent d (trie s) (kv s) x)"
      using Cons.prems(4) None by auto
    then show ?thesis by (rule Cons.IH [OF l Cons.prems(2) dd])
  next
    case (Some b)
    then obtain s' where r: "Root_account d (ko y) s y b = Continue s'"
      and l: "Root_loop d ko ao s' = Continue s1"
      using Cons.prems(1) by (auto split: flow.splits)
    have e': "err s' = None" by (rule Root_loop_err [OF l Cons.prems(2)])
    have "(x \<in> set ao \<and> (\<exists>a. cachedAccounts s' x = Some a \<and> isEmpty a)) \<or>
         (x \<notin> set ao \<and> absent d (trie s') (kv s') x)"
    proof (cases "y = x")
      case True
      then have "isEmpty b" using Cons.prems(4) Some by auto
      then have "TryDelete d (trie s) (kv s) x = Inr (trie s')" and "kv s' = kv s"
        using Root_account_trie [OF r Some] e' True by auto
      then have "absent d (trie s') (kv s') x"
        using assms(1) unfolding deletion_laws_def by metis
      then show ?thesis using yn True by simp
    next
      case False
      have f: "cachedAccounts s' x = cachedAccounts s x"
        using Root_account_frame [OF r Some, of x] False by simp
      show ?thesis
      proof (cases "x \<in> set ao")
        case True
        then show ?thesis using Cons.prems(4) f by auto
      next
        case notin: False
        then have "absent d (trie s) (kv s) x" using Cons.prems(4) False by auto
        then have "absent d (trie s') (kv s') x"
          by (rule Root_account_absent [OF assms(1) r Some False])
        then show ?thesis using notin by simp
      qed
    qed
    then show ?thesis by (rule Cons.IH [OF l Cons.prems(2) dd])
  qed
qed

lemma Exists_absent:
  "cachedAccounts s x = None \<Longrightarrow> absent d (trie s) (kv s) x \<Longrightarrow> Exists d s x = (False, s)"
  by (auto simp: Exists_def absent_def split: sum.splits)

lemma Root_storage_Return_err: "Root_storage d keys s y = Return s' \<Longrightarrow> err s' \<noteq> None"
  by (auto simp: Root_storage_def split: sum.splits prod.splits option.splits)

lemma Root_dirty_Return_err: "Root_dirty d s y = Return s' \<Longrightarrow> err s' \<noteq> None"
  by (auto simp: Root_dirty_def split: sum.splits prod.splits option.splits if_splits)

lemma Root_account_Return_err: "Root_account d keys s y b = Return s' \<Longrightarrow> err s' \<noteq> None"
  by (auto simp: Root_account_def split: if_splits flow.splits
      dest: Root_storage_Return_err Root_dirty_Return_err)

lemma Root_loop_Return_err: "Root_loop d ko ao s = Return s' \<Longrightarrow> err s' \<noteq> None"
proof (induction ao arbitrary: s)
  case Nil
  then show ?case by simp
next
  case (Cons y ao)
  then show ?case
    by (auto split: option.splits flow.splits dest: Root_account_Return_err)
qed

lemma Root_no_fault:
  assumes "Root d ao ko s = Inr (h, s1)" and "err s1 = None"
  shows "Root_loop d ko ao s = Continue s1"
proof (cases "Root_loop d ko ao s")
  case (Continue s')
  then show ?thesis using assms(1) by (simp add: Root_def)
next
  case (Return s')
  then show ?thesis using assms Root_loop_Return_err [OF Return] by (simp add: Root_def)
next
  case Panicked
  then show ?thesis using assms(1) by (simp add: Root_def)
qed

lemma Commit_account_Return_err: "Commit_account d s y a = Return s' \<Longrightarrow> err s' \<noteq> None"
  by (auto simp: Commit_account_def Let_def split: if_splits sum.splits prod.splits)

lemma Commit_loop_Return_err: "Commit_loop d co s = Return s' \<Longrightarrow> err s' \<noteq> None"
proof (induction co arbitrary: s)
  case Nil
  then show ?case by simp
next
  case (Cons y co)
  then show ?case
    by (auto split: option.splits flow.splits dest: Commit_account_Return_err)
qed

lemma Commit_account_Continue:
  assumes "Commit_account d s y a = Continue s'"
  shows "trie s' = trie s \<and> err s' = err s \<and>
         (kv s' = kv s \<or> (\<exists>t2 r t2'. TrieCommit d t2 (kv s) = (r, t2', kv s')))"
proof (cases "storageStep a = storageUpdated")
  case False
  then show ?thesis using assms by (auto simp: Commit_account_def)
next
  case True
  obtain st s1 where g: "getTrie d s y = Inr (Inr st, s1)"
    using assms True by (auto simp: Commit_account_def Let_def split: sum.splits prod.splits)
  have k1: "kv s1 = kv s" and t1: "trie s1 = trie s" and e1: "err s1 = err s"
    using g by (auto simp: getTrie_def split: option.splits sum.splits)
  obtain r st' store where c: "TrieCommit d st (kv s1) = (r, st', store)"
    by (cases "TrieCommit d st (kv s1)")
  have "s' = (through y (\<lambda>a. a\<lparr>storageTrie := Some st'\<rparr>) (s1\<lparr>kv := store\<rparr>))
               \<lparr>cachedAccounts := (cachedAccounts (through y (\<lambda>a. a\<lparr>storageTrie := Some st'\<rparr>) (s1\<lparr>kv := store\<rparr>)))(y := None)\<rparr>"
    using assms True g c by (auto simp: Commit_account_def Let_def split: sum.splits)
  then have "trie s' = trie s" "err s' = err s" "kv s' = store"
    using t1 e1 by (simp_all add: through_sel)
  then show ?thesis using c k1 by auto
qed

lemma Commit_loop_Continue:
  assumes "deletion_laws d" and "Commit_loop d co s = Continue s'"
    and "absent d (trie s) (kv s) x"
  shows "trie s' = trie s \<and> err s' = err s \<and> absent d (trie s') (kv s') x"
  using assms(2,3)
proof (induction co arbitrary: s)
  case Nil
  then show ?case by simp
next
  case (Cons y co)
  show ?case
  proof (cases "cachedAccounts s y")
    case None
    then have "Commit_loop d co s = Continue s'" using Cons.prems(1) by simp
    then show ?thesis using Cons.IH Cons.prems(2) by blast
  next
    case (Some a)
    then obtain s1 where r: "Commit_account d s y a = Continue s1"
      and l: "Commit_loop d co s1 = Continue s'"
      using Cons.prems(1) by (auto split: flow.splits)
    have c: "trie s1 = trie s \<and> err s1 = err s \<and>
         (kv s1 = kv s \<or> (\<exists>t2 r t2'. TrieCommit d t2 (kv s) = (r, t2', kv s1)))"
      by (rule Commit_account_Continue [OF r])
    have "absent d (trie s) (kv s1) x"
      using c Cons.prems(2) assms(1) unfolding deletion_laws_def by metis
    then have "absent d (trie s1) (kv s1) x" using c by simp
    then have ih: "trie s' = trie s1 \<and> err s' = err s1 \<and> absent d (trie s') (kv s') x"
      by (rule Cons.IH [OF l])
    have t: "trie s1 = trie s" and e: "err s1 = err s" using c by simp_all
    show ?thesis using ih unfolding t e .
  qed
qed


lemma absent_mem: "absent mem t store k \<longleftrightarrow> bytesOf (t k) = []"
  by (simp add: absent_def mem_ops)

lemma deletion_laws_mem: "deletion_laws mem"
  unfolding deletion_laws_def absent_mem
  by (auto simp: mem_ops bytesOf_def)

lemma zeroedA_facts:
  "cachedAccounts zeroedA = [addrA \<mapsto> accountA\<lparr>storageTrie := Some [key1 \<mapsto> [7]], storage := Map.empty,
                                storageRoot := mem_Hash [key1 \<mapsto> [7]], isDirty := True,
                                storageStep := storageUpdated, balance := 0\<rparr>]"
  "trie zeroedA = [addrA \<mapsto> 1 # codeHash accountA @ mem_Hash [key1 \<mapsto> [7]]]"
  "kv zeroedA = Map.empty" "err zeroedA = None"
  by (simp_all add: zeroedA_def SetBalance_def flushedA_def getAccount_def mem0_def
        accountA_def freshAccount_def)


subsection \<open>The content of the account trie after a walk\<close>

lemma pushAll_content:
  assumes "canonical d \<alpha> H" and "pushAll d store m keys st = Some st'" and "distinct keys"
  shows "\<alpha> st' = (\<lambda>k. if k \<in> set keys then flushedContent d (\<alpha> st) m k else \<alpha> st k)"
  using assms(2,3)
proof (induction keys arbitrary: st)
  case Nil
  then show ?case by simp
next
  case (Cons k ks)
  have dk: "distinct ks" and kn: "k \<notin> set ks" using Cons.prems(2) by simp_all
  show ?case
  proof (cases "m k")
    case None
    then have p: "pushAll d store m ks st = Some st'" using Cons.prems(1) by simp
    have ih: "\<alpha> st' = (\<lambda>j. if j \<in> set ks then flushedContent d (\<alpha> st) m j else \<alpha> st j)"
      by (rule Cons.IH [OF p dk])
    show ?thesis
      unfolding ih using None by (auto simp: fun_eq_iff flushedContent_def)
  next
    case (Some v)
    then obtain st1 where u: "TryUpdate d st store k (EncodeBytes d (TrimLeft v)) = Inr st1"
      and p: "pushAll d store m ks st1 = Some st'"
      using Cons.prems(1) by (auto split: sum.splits)
    have a1: "\<alpha> st1 = (\<alpha> st)(k := held (EncodeBytes d (TrimLeft v)))"
      using assms(1) u unfolding canonical_def by blast
    have ih: "\<alpha> st' = (\<lambda>j. if j \<in> set ks then flushedContent d (\<alpha> st1) m j else \<alpha> st1 j)"
      by (rule Cons.IH [OF p dk])
    show ?thesis
      unfolding ih a1 using Some kn by (auto simp: fun_eq_iff flushedContent_def split: option.splits)
  qed
qed

lemma pushAll_iterates:
  assumes "canonical d \<alpha> H" and "pushAll d store m keys st = Some st'" and "iterates m keys"
  shows "\<alpha> st' = flushedContent d (\<alpha> st) m"
proof -
  have dk: "distinct keys" and sk: "set keys = dom m" using assms(3) by (simp_all add: iterates_def)
  have "\<alpha> st' = (\<lambda>k. if k \<in> set keys then flushedContent d (\<alpha> st) m k else \<alpha> st k)"
    by (rule pushAll_content [OF assms(1,2) dk])
  then show ?thesis
    using sk by (auto simp: fun_eq_iff flushedContent_def split: option.splits)
qed

lemma Root_account_content:
  assumes "canonical d \<alpha> H" and "Root_account d keys s x a = Continue s'"
    and "cachedAccounts s x = Some a" and "iterates (storage a) keys" and "err s' = None"
  shows "\<alpha> (trie s') = (\<alpha> (trie s))(x := accountEntry d \<alpha> H (kv s) a (\<alpha> (trie s) x))"
proof (cases "isEmpty a")
  case True
  then have "TryDelete d (trie s) (kv s) x = Inr (trie s')"
    using Root_account_trie [OF assms(2,3)] assms(5) by auto
  then have "\<alpha> (trie s') = (\<alpha> (trie s))(x := None)"
    using assms(1) unfolding canonical_def by blast
  then show ?thesis using True by (simp add: accountEntry_def)
next
  case False
  show ?thesis
  proof (cases "storageStep a = storageSet")
    case True
    have dk: "distinct keys" using assms(4) by (simp add: iterates_def)
    obtain st0 st' enc t where
      o: "storageTrie a = Some st0 \<or> (storageTrie a = None \<and> NewSecure d (storageRoot a) (kv s) = Inr st0)"
      and p: "pushAll d (kv s) (storage a) keys st0 = Some st'"
      and e: "EncodeAccount d \<lparr>Balance = balance a, CodeHash = codeHash a, StorageRoot = Hash d st'\<rparr> = Inr enc"
      and u: "TryUpdate d (trie s) (kv s) x enc = Inr t"
      and s': "trie s' = t"
      using Root_account_Pending [OF assms(2,3) False True] dk by auto
    have ot: "openTrie d (kv s) a = Some st0"
      using o by (auto simp: openTrie_def)
    have "\<alpha> st' = flushedContent d (\<alpha> st0) (storage a)"
      by (rule pushAll_iterates [OF assms(1) p assms(4)])
    then have h: "Hash d st' = newRoot d \<alpha> H (kv s) a"
      using assms(1) True ot unfolding canonical_def by (simp add: newRoot_def)
    have "\<alpha> t = (\<alpha> (trie s))(x := held enc)"
      using assms(1) u unfolding canonical_def by blast
    then show ?thesis
      using False True e h s' by (simp add: accountEntry_def)
  next
    case False2: False
    then have nr: "newRoot d \<alpha> H (kv s) a = storageRoot a" by (simp add: newRoot_def)
    show ?thesis
    proof (cases "isDirty a")
      case True
      obtain enc t where
        e: "EncodeAccount d \<lparr>Balance = balance a, CodeHash = codeHash a, StorageRoot = storageRoot a\<rparr> = Inr enc"
        and u: "TryUpdate d (trie s) (kv s) x enc = Inr t" and s': "trie s' = t"
        using Root_account_other [OF assms(2,3) False False2] True by auto
      have "\<alpha> t = (\<alpha> (trie s))(x := held enc)"
        using assms(1) u unfolding canonical_def by blast
      then show ?thesis
        using False False2 True e s' nr by (simp add: accountEntry_def)
    next
      case False3: False
      then have "s' = s"
        using Root_account_other [OF assms(2,3) False False2] by simp
      then show ?thesis
        using False False2 False3 by (simp add: accountEntry_def)
    qed
  qed
qed

lemma Root_loop_content:
  assumes "canonical d \<alpha> H" and "Root_loop d ko ao s = Continue s1" and "err s1 = None"
    and "distinct ao"
    and "\<And>x a. x \<in> set ao \<Longrightarrow> cachedAccounts s x = Some a \<Longrightarrow> iterates (storage a) (ko x)"
  shows "\<alpha> (trie s1) = (\<lambda>x. if x \<in> set ao then walkContent d \<alpha> H s x else \<alpha> (trie s) x)"
  using assms(2-)
proof (induction ao arbitrary: s)
  case Nil
  then show ?case by simp
next
  case (Cons y ao)
  have dd: "distinct ao" and yn: "y \<notin> set ao" using Cons.prems(3) by simp_all
  show ?case
  proof (cases "cachedAccounts s y")
    case None
    then have l: "Root_loop d ko ao s = Continue s1" using Cons.prems(1) by simp
    have ih: "\<alpha> (trie s1) = (\<lambda>x. if x \<in> set ao then walkContent d \<alpha> H s x else \<alpha> (trie s) x)"
      using Cons.IH [OF l Cons.prems(2) dd] Cons.prems(4) by simp
    show ?thesis
      unfolding ih using None by (auto simp: fun_eq_iff walkContent_def)
  next
    case (Some b)
    then obtain s' where r: "Root_account d (ko y) s y b = Continue s'"
      and l: "Root_loop d ko ao s' = Continue s1"
      using Cons.prems(1) by (auto split: flow.splits)
    have e': "err s' = None" by (rule Root_loop_err [OF l Cons.prems(2)])
    have k: "kv s' = kv s" by (rule Root_account_Continue_kv [OF r])
    have f: "\<And>z. z \<noteq> y \<Longrightarrow> cachedAccounts s' z = cachedAccounts s z"
      by (rule Root_account_frame [OF r Some])
    have iy: "iterates (storage b) (ko y)" using Cons.prems(4) [of y b] Some by simp
    have c: "\<alpha> (trie s') = (\<alpha> (trie s))(y := accountEntry d \<alpha> H (kv s) b (\<alpha> (trie s) y))"
      by (rule Root_account_content [OF assms(1) r Some iy e'])
    have it: "\<And>x a. x \<in> set ao \<Longrightarrow> cachedAccounts s' x = Some a \<Longrightarrow> iterates (storage a) (ko x)"
    proof -
      fix x a assume xa: "x \<in> set ao" and ca: "cachedAccounts s' x = Some a"
      have "x \<noteq> y" using xa yn by auto
      then have "cachedAccounts s x = Some a" using f ca by simp
      then show "iterates (storage a) (ko x)" using Cons.prems(4) xa by simp
    qed
    have ih: "\<alpha> (trie s1) = (\<lambda>x. if x \<in> set ao then walkContent d \<alpha> H s' x else \<alpha> (trie s') x)"
      by (rule Cons.IH [OF l Cons.prems(2) dd it])
    have w: "\<And>x. x \<in> set ao \<Longrightarrow> walkContent d \<alpha> H s' x = walkContent d \<alpha> H s x"
    proof -
      fix x assume "x \<in> set ao"
      then have n: "x \<noteq> y" using yn by auto
      have t: "\<alpha> (trie s') x = \<alpha> (trie s) x" using n by (simp add: c)
      show "walkContent d \<alpha> H s' x = walkContent d \<alpha> H s x"
        unfolding walkContent_def f [OF n] k t by (rule refl)
    qed
    have wy: "walkContent d \<alpha> H s y = accountEntry d \<alpha> H (kv s) b (\<alpha> (trie s) y)"
      using Some by (simp add: walkContent_def)
    show ?thesis
      unfolding ih using w wy yn c by (auto simp: fun_eq_iff)
  qed
qed

lemma Root_loop_content_iterates:
  assumes "canonical d \<alpha> H" and "Root_loop d ko ao s = Continue s1" and "err s1 = None"
    and "iterates (cachedAccounts s) ao"
    and "\<And>x a. cachedAccounts s x = Some a \<Longrightarrow> iterates (storage a) (ko x)"
  shows "\<alpha> (trie s1) = walkContent d \<alpha> H s"
proof -
  have dd: "distinct ao" and sa: "set ao = dom (cachedAccounts s)"
    using assms(4) by (simp_all add: iterates_def)
  have "\<alpha> (trie s1) = (\<lambda>x. if x \<in> set ao then walkContent d \<alpha> H s x else \<alpha> (trie s) x)"
    using Root_loop_content [OF assms(1,2,3) dd] assms(5) by blast
  then show ?thesis
    using sa by (auto simp: fun_eq_iff walkContent_def split: option.splits)
qed

lemma Commit_loop_err_mono:
  assumes "err s \<noteq> None"
  shows "pred_flow (\<lambda>s'. err s' \<noteq> None) (Commit_loop d co s)"
  using assms
proof (induction co arbitrary: s)
  case Nil
  then show ?case by simp
next
  case (Cons y co)
  show ?case
  proof (cases "cachedAccounts s y")
    case None
    then show ?thesis using Cons by simp
  next
    case (Some b)
    show ?thesis
    proof (cases "Commit_account d s y b")
      case (Continue s4)
      then have "err s4 \<noteq> None"
        using Commit_account_Continue [OF Continue] Cons.prems by simp
      then show ?thesis using Cons.IH [of s4] Some Continue by simp
    next
      case (Return s4)
      then show ?thesis using Some Commit_account_Return_err [OF Return] by simp
    next
      case Panicked
      then show ?thesis using Some by simp
    qed
  qed
qed

lemma Commit_loop_trie:
  "Commit_loop d co s = Continue s' \<Longrightarrow> trie s' = trie s"
proof (induction co arbitrary: s)
  case Nil
  then show ?case by simp
next
  case (Cons y co)
  show ?case
  proof (cases "cachedAccounts s y")
    case None
    then show ?thesis using Cons by simp
  next
    case (Some b)
    then obtain s1 where r: "Commit_account d s y b = Continue s1"
      and l: "Commit_loop d co s1 = Continue s'"
      using Cons.prems by (auto split: flow.splits)
    show ?thesis
      using Cons.IH [OF l] Commit_account_Continue [OF r] by simp
  qed
qed

text \<open>What a commit without fault went through.\<close>

lemma Commit_no_fault:
  assumes "Commit d ao ko co s = Inr (h, s2)" and "err s2 = None"
  shows "\<exists>sr s3 t store.
           Root_loop d ko ao s = Continue sr \<and> err sr = None \<and>
           Commit_loop d co sr = Continue s3 \<and> err s3 = None \<and>
           TrieCommit d (trie s3) (kv s3) = (Inr h, t, store) \<and>
           s2 = s3\<lparr>trie := t, kv := store\<rparr>"
proof -
  obtain h1 sr where r: "Root d ao ko s = Inr (h1, sr)"
    using assms(1) by (auto simp: Commit_def split: sum.splits)
  obtain s3 t store where cl: "Commit_loop d co sr = Continue s3"
    and e3: "err s3 = None"
    and tc: "TrieCommit d (trie s3) (kv s3) = (Inr h, t, store)"
    and s2: "s2 = s3\<lparr>trie := t, kv := store\<rparr>"
    using assms r Commit_loop_Return_err [of d co sr]
    by (auto simp: Commit_def split: flow.splits prod.splits sum.splits)
  have er: "err sr = None"
  proof (rule ccontr)
    assume "err sr \<noteq> None"
    then have "pred_flow (\<lambda>s'. err s' \<noteq> None) (Commit_loop d co sr)"
      by (rule Commit_loop_err_mono)
    then show False using cl e3 by simp
  qed
  have l: "Root_loop d ko ao s = Continue sr" by (rule Root_no_fault [OF r er])
  show ?thesis using l er cl e3 tc s2 by blast
qed


lemma run_opsAB:
  "run mem opsAB mem0 = mem0\<lparr>cachedAccounts := [addrB \<mapsto> accountB, addrA \<mapsto> accountA]\<rparr>"
proof -
  have 1: "SetBalance mem mem0 addrB 5 = mem0\<lparr>cachedAccounts := [addrB \<mapsto> accountB]\<rparr>"
    by (simp add: SetBalance_def mem0_getAccount accountB_def)
  have g2: "getAccount mem (mem0\<lparr>cachedAccounts := [addrB \<mapsto> accountB]\<rparr>) addrA =
     (Inr (freshAccount mem),
      mem0\<lparr>cachedAccounts := [addrB \<mapsto> accountB, addrA \<mapsto> freshAccount mem]\<rparr>)"
    by (simp add: getAccount_def mem_ops mem0_def bytesOf_def addr_neq)
  have 2: "SetBalance mem (mem0\<lparr>cachedAccounts := [addrB \<mapsto> accountB]\<rparr>) addrA 1 =
     mem0\<lparr>cachedAccounts := [addrB \<mapsto> accountB,
                              addrA \<mapsto> (freshAccount mem)\<lparr>isDirty := True, balance := 1\<rparr>]\<rparr>"
    by (simp add: SetBalance_def g2)
  have 3: "SetStorage mem (mem0\<lparr>cachedAccounts := [addrB \<mapsto> accountB,
                              addrA \<mapsto> (freshAccount mem)\<lparr>isDirty := True, balance := 1\<rparr>]\<rparr>)
             addrA key1 val7 =
           mem0\<lparr>cachedAccounts := [addrB \<mapsto> accountB, addrA \<mapsto> accountA]\<rparr>"
    by (simp add: SetStorage_def getAccount_cached accountA_def freshAccount_def)
  show ?thesis
    unfolding run_def opsAB_def by (simp add: 1 2 3)
qed

lemma canonical_mem: "canonical mem (\<lambda>t. t) mem_Hash"
  by (auto simp: canonical_def mem_ops held_def)

lemma iterates_two: "k \<noteq> k' \<Longrightarrow> iterates [k \<mapsto> v, k' \<mapsto> v'] [k, k']"
  "k \<noteq> k' \<Longrightarrow> iterates [k \<mapsto> v, k' \<mapsto> v'] [k', k]"
  by (auto simp: iterates_def split: if_splits)

lemma iterates_empty: "iterates Map.empty []"
  by (simp add: iterates_def)

lemma Commit_AB:
  "Commit mem [addrA, addrB] koA [addrA, addrB]
     (mem0\<lparr>cachedAccounts := [addrB \<mapsto> accountB, addrA \<mapsto> accountA]\<rparr>)
   = Inr (mem_Hash [addrA \<mapsto> 1 # codeHash accountA @ mem_Hash [key1 \<mapsto> [7]],
                    addrB \<mapsto> 5 # codeHash accountB @ zeroHash],
          mem0\<lparr>trie := [addrA \<mapsto> 1 # codeHash accountA @ mem_Hash [key1 \<mapsto> [7]],
                         addrB \<mapsto> 5 # codeHash accountB @ zeroHash]\<rparr>)"
  by (simp add: Commit_def Root_def addr_neq Root_account_def isEmpty_def accountA_def accountB_def
       freshAccount_def Root_storage_def updateStorage_def getTrie_def mem_ops overlay_def
       through_def TrimLeft_val7 mem_EncodeBytes_def Root_dirty_def updateAccount_def
       mem_EncodeAccount_def mem0_def koA_def Commit_account_def)

lemma Commit_BA:
  "Commit mem [addrB, addrA] koA [addrB, addrA]
     (mem0\<lparr>cachedAccounts := [addrB \<mapsto> accountB, addrA \<mapsto> accountA]\<rparr>)
   = Inr (mem_Hash [addrB \<mapsto> 5 # codeHash accountB @ zeroHash,
                    addrA \<mapsto> 1 # codeHash accountA @ mem_Hash [key1 \<mapsto> [7]]],
          mem0\<lparr>trie := [addrB \<mapsto> 5 # codeHash accountB @ zeroHash,
                         addrA \<mapsto> 1 # codeHash accountA @ mem_Hash [key1 \<mapsto> [7]]]\<rparr>)"
  by (simp add: Commit_def Root_def addr_neq Root_account_def isEmpty_def accountA_def accountB_def
       freshAccount_def Root_storage_def updateStorage_def getTrie_def mem_ops overlay_def
       through_def TrimLeft_val7 mem_EncodeBytes_def Root_dirty_def updateAccount_def
       mem_EncodeAccount_def mem0_def koA_def Commit_account_def)


subsection \<open>Storage round trip\<close>

text \<open>
  Claim C1. When the account lookup of \<^verbatim>\<open>SetStorage(addr, k, v)\<close> does not fail, a
  \<^verbatim>\<open>GetStorage(addr, k)\<close> that follows it returns \<open>v\<close> and leaves the state as it is.
  The read is answered by the overlay alone: it gives the same answer whatever the trie
  engine and the store of the reading call (\<open>d'\<close>) are, so no trie is consulted.
\<close>

theorem C1_storage_round_trip:
  assumes "fst (getAccount d s addr) = Inr a"
  shows "GetStorage d' (SetStorage d s addr k v) addr k = Inr (v, SetStorage d s addr k v)"
proof -
  obtain s1 where g: "getAccount d s addr = (Inr a, s1)"
    using assms by (cases "getAccount d s addr") simp
  have "overlay (SetStorage d s addr k v) addr k = Some v"
    by (simp add: SetStorage_def g overlay_def)
  then show ?thesis
    by (simp add: GetStorage_def)
qed

theorem C1_storage_round_trip_witness:
  "fst (getAccount mem mem0 addrA) = Inr (freshAccount mem) \<and>
   GetStorage mem (SetStorage mem mem0 addrA key1 val7) addrA key1
     = Inr (val7, SetStorage mem mem0 addrA key1 val7)"
  using C1_storage_round_trip [of mem mem0 addrA "freshAccount mem" mem key1 val7]
  by (simp add: mem0_getAccount)

subsection \<open>Pruning of empty accounts\<close>

text \<open>
  Claim C2. For a cached account with a zero balance and no code, the body of the loop
  of \<^verbatim>\<open>Root\<close> is \<^verbatim>\<open>Delete\<close>: the entry leaves the cache and \<^verbatim>\<open>TryDelete\<close> is called on the
  account trie. With a trie engine that obeys the deletion laws, after a \<^verbatim>\<open>Root\<close> or a
  \<^verbatim>\<open>Commit\<close> that returns with no error on the fault flag the address is not cached and
  \<^verbatim>\<open>Exists\<close> answers false, whatever the account trie held for the address before.
\<close>

theorem C2_pruning:
  assumes "deletion_laws d" and "iterates (cachedAccounts s) ao"
    and "cachedAccounts s addr = Some a" and "isEmpty a"
  shows "Root_account d keys sm addr a = Continue (Delete d sm addr) \<and>
         cachedAccounts (Delete d sm addr) addr = None \<and>
         (Root d ao ko s = Inr (h, s1) \<and> Error s1 = None \<longrightarrow>
            cachedAccounts s1 addr = None \<and> Exists d s1 addr = (False, s1)) \<and>
         (Commit d ao ko co s = Inr (h', s2) \<and> Error s2 = None \<longrightarrow>
            cachedAccounts s2 addr = None \<and> Exists d s2 addr = (False, s2))"
proof -
  have dd: "distinct ao" and x: "addr \<in> set ao"
    using assms(2,3) by (auto simp: iterates_def)
  have root: "cachedAccounts s1 addr = None \<and> absent d (trie s1) (kv s1) addr"
    if l: "Root_loop d ko ao s = Continue s1" and e: "err s1 = None" for s1
  proof -
    have "cachedAccounts s1 addr = None"
      by (rule Root_loop_prunes [OF l assms(2,3,4)])
    moreover have "absent d (trie s1) (kv s1) addr"
      using Root_loop_absent [OF assms(1) l e dd, of addr] x assms(3,4) by blast
    ultimately show ?thesis by simp
  qed
  have 1: "cachedAccounts s1 addr = None \<and> Exists d s1 addr = (False, s1)"
    if "Root d ao ko s = Inr (h, s1)" "Error s1 = None"
  proof -
    have e: "err s1 = None" using that(2) by (simp add: Error_def)
    have l: "Root_loop d ko ao s = Continue s1" by (rule Root_no_fault [OF that(1) e])
    show ?thesis using root [OF l e] by (simp add: Exists_absent)
  qed
  have 2: "cachedAccounts s2 addr = None \<and> Exists d s2 addr = (False, s2)"
    if c: "Commit d ao ko co s = Inr (h', s2)" and "Error s2 = None"
  proof -
    have e2: "err s2 = None" using that(2) by (simp add: Error_def)
    obtain sr s3 t store where l: "Root_loop d ko ao s = Continue sr" and er: "err sr = None"
      and cl: "Commit_loop d co sr = Continue s3"
      and t: "TrieCommit d (trie s3) (kv s3) = (Inr h', t, store)"
      and s2: "s2 = s3\<lparr>trie := t, kv := store\<rparr>"
      using Commit_no_fault [OF c e2] by blast
    have a1: "cachedAccounts sr addr = None" and a2: "absent d (trie sr) (kv sr) addr"
      using root [OF l er] by simp_all
    have n3: "cachedAccounts s3 addr = None"
      using Commit_loop_None [OF a1, of d co] cl by simp
    have a3: "trie s3 = trie sr \<and> err s3 = err sr \<and> absent d (trie s3) (kv s3) addr"
      by (rule Commit_loop_Continue [OF assms(1) cl a2])
    have "absent d t store addr"
      using a3 t assms(1) unfolding deletion_laws_def by metis
    then have "absent d (trie s2) (kv s2) addr" by (simp add: s2)
    moreover have "cachedAccounts s2 addr = None" using n3 by (simp add: s2)
    ultimately show ?thesis by (simp add: Exists_absent)
  qed
  have 0: "Root_account d keys sm addr a = Continue (Delete d sm addr)"
    by (rule Root_account_empty [OF assms(4)])
  show ?thesis using 0 1 2 by (simp add: Delete_sel)
qed

theorem C2_pruning_witness:
  "deletion_laws mem \<and> iterates (cachedAccounts zeroedA) [addrA] \<and>
   trie zeroedA addrA \<noteq> None \<and>
   Root mem [addrA] (\<lambda>a. []) zeroedA = Inr (mem_Hash Map.empty, mem0) \<and>
   Exists mem mem0 addrA = (False, mem0) \<and>
   Commit mem [addrA] (\<lambda>a. []) [] zeroedA = Inr (mem_Hash Map.empty, mem0)"
proof -
  let ?a = "accountA\<lparr>storageTrie := Some [key1 \<mapsto> [7]], storage := Map.empty,
                                storageRoot := mem_Hash [key1 \<mapsto> [7]], isDirty := True,
                                storageStep := storageUpdated, balance := 0\<rparr>"
  have c: "cachedAccounts zeroedA addrA = Some ?a" by (simp add: zeroedA_facts)
  have e: "isEmpty ?a" by (simp add: isEmpty_def accountA_def freshAccount_def)
  have i: "iterates (cachedAccounts zeroedA) [addrA]"
    by (simp add: zeroedA_facts iterates_single)
  have d: "Delete mem zeroedA addrA = mem0"
    by (simp add: Delete_def mem_ops Let_def zeroedA_facts mem0_def State.equality)
  have r: "Root mem [addrA] (\<lambda>a. []) zeroedA = Inr (mem_Hash Map.empty, mem0)"
    using e by (simp add: Root_def c Root_account_empty d mem_ops) (simp add: mem0_def)
  have k: "Commit mem [addrA] (\<lambda>a. []) [] zeroedA = Inr (mem_Hash Map.empty, mem0)"
    by (simp add: Commit_def r mem_ops) (simp add: mem0_def)
  have n: "Error mem0 = None" by (simp add: Error_def mem0_def)
  show ?thesis
    using C2_pruning [OF deletion_laws_mem i c e, of "[]" zeroedA "\<lambda>a. []" "mem_Hash Map.empty" mem0
              "[]" "mem_Hash Map.empty" mem0] r k n
    by (simp add: deletion_laws_mem i zeroedA_facts(2))
qed

subsection \<open>Failures inside \<^verbatim>\<open>Root\<close> and \<^verbatim>\<open>Commit\<close>\<close>

text \<open>
  Claim C3. The claim is that \<^verbatim>\<open>Root\<close> and \<^verbatim>\<open>Commit\<close> stop at the first failing
  operation, record the error and return the zero hash, in particular when the update
  of a storage trie fails during the flush of an overlay. The code does not do so, and
  the theorem evaluates it at two inputs.

  First, in \<open>pendingA\<close> the update of the storage trie of A fails. \<^verbatim>\<open>updateStorage\<close>
  stores the nil \<^verbatim>\<open>err\<close> of its \<^verbatim>\<open>getTrie\<close> call in the fault flag, not the error \<^verbatim>\<open>e\<close> of
  the update, and returns a nil trie with a nil error; \<^verbatim>\<open>Root\<close> then calls \<^verbatim>\<open>Hash\<close> on
  the nil trie: no error is recorded and no zero hash is returned, the call panics.

  Second, in \<open>twoAccounts\<close> the write of account A into the account trie fails after
  the write of B succeeded. \<^verbatim>\<open>Root\<close> records the error and returns the zero hash, but
  \<^verbatim>\<open>Commit\<close> drops the result of \<^verbatim>\<open>Root\<close>, clears the cache, commits the trie and returns
  its digest: a root that holds B and not A, and not the zero hash.
\<close>

theorem C3_failure_in_flush:
  "(case updateStorage brittle [key1] pendingA addrA of
      Inr (Inr None, s1) \<Rightarrow> Error s1 = None
    | _ \<Rightarrow> False) \<and>
   Root brittle [addrA] (\<lambda>a. [key1]) pendingA = Inl NilPointerDereference \<and>
   (case Commit stuck [addrB, addrA] (\<lambda>a. []) [addrB, addrA] twoAccounts of
      Inr (h, s1) \<Rightarrow>
        h = Hash stuck (trie s1) \<and> h \<noteq> zeroHash \<and> trie s1 addrB \<noteq> None \<and>
        trie s1 addrA = None \<and> Error s1 = Some ''missing trie node''
    | Inl p \<Rightarrow> False)"
proof -
  let ?s = "through addrA (\<lambda>a. a\<lparr>storageTrie := Some Map.empty\<rparr>) pendingA"
  have t: "getTrie brittle pendingA addrA = Inr (Inr Map.empty, ?s)"
    by (simp add: pendingA_eq getTrie_def freshAccount_def accountA_def brittle_ops mem_ops
          through_def)
  have o: "overlay ?s addrA key1 = Some val7"
    by (simp add: pendingA_eq overlay_def through_def freshAccount_def accountA_def)
  have u: "updateStorage brittle [key1] pendingA addrA = Inr (Inr None, ?s\<lparr>err := None\<rparr>)"
    by (simp add: updateStorage_def t o brittle_ops)
  have r: "Root brittle [addrA] (\<lambda>a. [key1]) pendingA = Inl NilPointerDereference"
    by (simp add: Root_def pendingA_cached Root_account_def isEmpty_def Root_storage_def u
          freshAccount_def accountA_def)
  have k: "(case Commit stuck [addrB, addrA] (\<lambda>a. []) [addrB, addrA] twoAccounts of
      Inr (h, s1) \<Rightarrow>
        h = Hash stuck (trie s1) \<and> h \<noteq> zeroHash \<and> trie s1 addrB \<noteq> None \<and>
        trie s1 addrA = None \<and> Error s1 = Some ''missing trie node''
    | Inl p \<Rightarrow> False)"
    by (simp add: Commit_def twoAccounts_eq Root_def addr_neq Root_account_def isEmpty_def
          freshAccount_def Root_dirty_def updateAccount_def stuck_ops mem_ops
          mem_EncodeAccount_def through_def mem0_def Commit_account_def Error_def
          mem_Hash_nonzero)
  show ?thesis
    using k by (simp add: u r Error_def)
qed

subsection \<open>The fault flag\<close>




subsection \<open>Reading storage through the overlay\<close>

text \<open>
  Claim C5, as the code has it. On an overlay miss, with the account found and its
  storage trie opened (the handle is created when absent and kept in the account), the
  read goes to the storage trie. A key that is absent from the trie gives the zero hash
  and the overlay is left without an entry for the key, so the next read goes to the trie
  again. A key that is present gives the decoded value, which is written into the
  overlay; the next read of the key is answered by the overlay, whatever the engine.
\<close>

theorem C5_read_through:
  assumes "overlay s addr key = None"
    and "getAccount d s addr = (Inr a, s1)"
    and "getTrie d s1 addr = Inr (Inr st, s2)"
    and "TryGet d st (kv s2) key = Inr enc"
  shows "cachedAccounts s2 addr = Some (a\<lparr>storageTrie := Some st\<rparr>) \<and>
         (if enc = [] then
            GetStorage d s addr key = Inr (zeroHash, s2) \<and> overlay s2 addr key = None
          else
            (case Split d enc of
               Inl e \<Rightarrow> GetStorage d s addr key = Inr (zeroHash, s2\<lparr>err := Some e\<rparr>)
             | Inr content \<Rightarrow>
                 (let v = BytesToHash d content;
                      s3 = through addr (\<lambda>a. a\<lparr>storage := (storage a)(key \<mapsto> v)\<rparr>) s2
                  in GetStorage d s addr key = Inr (v, s3) \<and>
                     overlay s3 addr key = Some v \<and>
                     GetStorage d' s3 addr key = Inr (v, s3))))"
proof -
  have c1: "cachedAccounts s1 addr = Some a"
    using assms(2) by (rule getAccount_Inr_cached)
  have st1: "storage a key = None"
    using assms(1,2)
    by (auto simp: overlay_def getAccount_def Let_def loadedAccount_def freshAccount_def
        split: option.splits sum.splits if_splits)
  have c2: "cachedAccounts s2 addr = Some (a\<lparr>storageTrie := Some st\<rparr>)"
    using assms(3) c1 by (auto simp: getTrie_def split: option.splits sum.splits)
  have o2: "overlay s2 addr key = None"
    by (simp add: overlay_def c2 st1)
  have g: "GetStorage d s addr key =
        (if length enc = 0 then Inr (zeroHash, s2)
         else (case Split d enc of
                 Inl e \<Rightarrow> Inr (zeroHash, s2\<lparr>err := Some e\<rparr>)
               | Inr content \<Rightarrow>
                   Inr (BytesToHash d content,
                        through addr
                          (\<lambda>a. a\<lparr>storage := (storage a)(key \<mapsto> BytesToHash d content)\<rparr>) s2)))"
    by (simp add: GetStorage_def assms Let_def split: sum.splits)
  have o3: "\<And>v. overlay (through addr (\<lambda>a. a\<lparr>storage := (storage a)(key \<mapsto> v)\<rparr>) s2) addr key
                 = Some v"
    by (simp add: overlay_def through_def c2)
  have r3: "\<And>v. GetStorage d' (through addr (\<lambda>a. a\<lparr>storage := (storage a)(key \<mapsto> v)\<rparr>) s2)
                   addr key
                 = Inr (v, through addr (\<lambda>a. a\<lparr>storage := (storage a)(key \<mapsto> v)\<rparr>) s2)"
    by (simp add: GetStorage_def o3)
  show ?thesis
    unfolding g by (simp add: c2 o2 o3 r3 Let_def split: sum.splits)
qed

lemma mem_BytesToHash_7: "mem_BytesToHash [7] = val7"
  by (simp add: mem_BytesToHash_def val7_def eval_nat_numeral)

theorem C5_read_through_witness:
  "GetStorage mem flushedA addrA key1
     = Inr (val7, through addrA (\<lambda>a. a\<lparr>storage := (storage a)(key1 \<mapsto> val7)\<rparr>) flushedA) \<and>
   overlay (through addrA (\<lambda>a. a\<lparr>storage := (storage a)(key1 \<mapsto> val7)\<rparr>) flushedA) addrA key1
     = Some val7"
proof -
  let ?a = "accountA\<lparr>storageTrie := Some [key1 \<mapsto> [7]], storage := Map.empty,
                     storageRoot := mem_Hash [key1 \<mapsto> [7]], isDirty := False,
                     storageStep := storageUpdated\<rparr>"
  have c: "cachedAccounts flushedA addrA = Some ?a" by (simp add: flushedA_def)
  have 1: "overlay flushedA addrA key1 = None" by (simp add: overlay_def c)
  have 2: "getAccount mem flushedA addrA = (Inr ?a, flushedA)"
    by (simp add: getAccount_cached c)
  have 3: "getTrie mem flushedA addrA = Inr (Inr [key1 \<mapsto> [7]], flushedA)"
    by (simp add: getTrie_def c)
  have 4: "TryGet mem [key1 \<mapsto> [7]] (kv flushedA) key1 = Inr [7]"
    by (simp add: mem_ops bytesOf_def)
  have 5: "Split mem [7] = Inr [7]" by (simp add: mem_ops mem_Split_def)
  have 6: "BytesToHash mem [7] = val7" by (simp add: mem_ops mem_BytesToHash_7)
  show ?thesis
    using C5_read_through [OF 1 2 3 4, of mem]
    by (simp add: 5 6 Let_def)
qed

text \<open>
  The claim as stated fails: a read of a key that the storage trie does not hold returns
  the zero hash and writes nothing into the overlay.
\<close>

theorem C5_counterexample:
  "(case GetStorage mem mem0 addrA key1 of
      Inr (v, s1) \<Rightarrow> v = zeroHash \<and> overlay s1 addrA key1 = None
    | Inl p \<Rightarrow> False)"
proof -
  let ?s = "mem0\<lparr>cachedAccounts :=
                  [addrA \<mapsto> (freshAccount mem)\<lparr>storageTrie := Some Map.empty\<rparr>]\<rparr>"
  have g: "GetStorage mem mem0 addrA key1 = Inr (zeroHash, ?s)"
    by (simp add: GetStorage_def mem0_overlay mem0_getAccount mem0_getTrie mem_ops bytesOf_def)
  have o: "overlay ?s addrA key1 = None"
    by (simp add: overlay_def freshAccount_def)
  show ?thesis by (simp add: g o)
qed

subsection \<open>Setting code\<close>



subsection \<open>The storage phase of an account\<close>




subsection \<open>Calling \<^verbatim>\<open>Root\<close> twice\<close>

text \<open>
  Claim C8. Whenever \<^verbatim>\<open>Root\<close> returns, the key/value store is the one it started with.
  When the walk of a \<^verbatim>\<open>Root\<close> call is not cut short by a failing operation, the call
  returns the digest of the account trie, and a second call, whatever the orders of its
  ranges, returns the same digest and leaves the state as it is.
\<close>

theorem C8_Root_idempotent:
  assumes "iterates (cachedAccounts s) ao"
  shows "(Root d ao ko s = Inr (h, s1) \<longrightarrow> kv s1 = kv s) \<and>
         (Root_loop d ko ao s = Continue s1 \<longrightarrow>
            Root d ao ko s = Inr (Hash d (trie s1), s1) \<and>
            Root d ao' ko' s1 = Inr (Hash d (trie s1), s1))"
proof -
  have k: "Root d ao ko s = Inr (h, s1) \<longrightarrow> kv s1 = kv s"
    using Root_kv by blast
  have i: "Root d ao' ko' s1 = Inr (Hash d (trie s1), s1)" if l: "Root_loop d ko ao s = Continue s1"
  proof -
    have "\<And>x a. cachedAccounts s x = Some a \<Longrightarrow> x \<in> set ao \<or> settled a"
      using assms by (auto simp: iterates_def)
    then have "\<And>y b. cachedAccounts s1 y = Some b \<Longrightarrow> settled b"
      using Root_loop_settles [OF l] by blast
    then have "Root_loop d ko' ao' s1 = Continue s1" by (rule Root_loop_settled)
    then show ?thesis by (simp add: Root_def)
  qed
  show ?thesis using k i by (auto simp: Root_def)
qed

theorem C8_Root_idempotent_witness:
  "iterates (cachedAccounts pendingA) [addrA] \<and>
   Root_loop mem (\<lambda>a. [key1]) [addrA] pendingA = Continue flushedA \<and>
   kv flushedA = kv pendingA \<and>
   Root mem [addrA] (\<lambda>a. [key1]) pendingA = Inr (Hash mem (trie flushedA), flushedA) \<and>
   Root mem [addrA] (\<lambda>a. [key1]) flushedA = Inr (Hash mem (trie flushedA), flushedA)"
  using C8_Root_idempotent [of pendingA "[addrA]" mem "\<lambda>a. [key1]" "Hash mem (trie flushedA)"
          flushedA "[addrA]" "\<lambda>a. [key1]"]
  by (simp add: pendingA_facts Root_loop_pendingA del: Root_loop.simps)

subsection \<open>A read creates a cache entry\<close>

text \<open>
  Claim C10. For an address that is not cached and for which the account trie has no
  entry, \<^verbatim>\<open>GetBalance\<close> and \<^verbatim>\<open>GetCode\<close> return the zero value and leave a fresh empty
  account in the cache, and \<^verbatim>\<open>GetStorage\<close> leaves an entry as well; \<^verbatim>\<open>Exists\<close> then
  answers true although the trie still has no entry. A walk of \<^verbatim>\<open>Root\<close> that is not cut
  short removes the entry, and so does a \<^verbatim>\<open>Commit\<close> whose \<^verbatim>\<open>Root\<close> is not cut short.
\<close>

theorem C10_read_creates_entry:
  assumes "cachedAccounts s addr = None" and "TryGet d (trie s) (kv s) addr = Inr enc"
    and "length enc = 0"
  shows "(let s' = s\<lparr>cachedAccounts := (cachedAccounts s)(addr \<mapsto> freshAccount d)\<rparr> in
            GetBalance d s addr = (0, s') \<and>
            GetCode d s addr = (None, s') \<and>
            Exists d s' addr = (True, s') \<and>
            TryGet d (trie s') (kv s') addr = Inr enc \<and>
            (iterates (cachedAccounts s') ao \<and> Root_loop d ko ao s' = Continue s1 \<longrightarrow>
               cachedAccounts s1 addr = None \<and>
               (Commit d ao ko co s' = Inr (h, s2) \<longrightarrow> cachedAccounts s2 addr = None))) \<and>
         (case GetStorage d s addr key of
            Inr (v, s2) \<Rightarrow> Exists d s2 addr = (True, s2)
          | Inl p \<Rightarrow> False)"
proof -
  let ?s = "s\<lparr>cachedAccounts := (cachedAccounts s)(addr \<mapsto> freshAccount d)\<rparr>"
  have g: "getAccount d s addr = (Inr (freshAccount d), ?s)"
    using assms by (simp add: getAccount_def)
  have c: "cachedAccounts ?s addr = Some (freshAccount d)" by simp
  have 1: "GetBalance d s addr = (0, ?s)" by (simp add: GetBalance_def g freshAccount_def)
  have 2: "GetCode d s addr = (None, ?s)" by (simp add: GetCode_def g freshAccount_def)
  have 3: "Exists d ?s addr = (True, ?s)" by (simp add: Exists_def)
  have 4: "TryGet d (trie ?s) (kv ?s) addr = Inr enc" using assms(2) by simp
  have 5: "cachedAccounts s1 addr = None"
    if "iterates (cachedAccounts ?s) ao" "Root_loop d ko ao ?s = Continue s1"
    using Root_loop_prunes [OF that(2,1) c isEmpty_fresh] .
  have 6: "cachedAccounts s2 addr = None"
    if "iterates (cachedAccounts ?s) ao" "Root_loop d ko ao ?s = Continue s1"
       "Commit d ao ko co ?s = Inr (h, s2)"
    using Commit_None [OF that(2) 5 [OF that(1,2)] that(3)] .
  have 7: "case GetStorage d s addr key of
            Inr (v, s2) \<Rightarrow> Exists d s2 addr = (True, s2)
          | Inl p \<Rightarrow> False"
    using GetStorage_cached [OF g, of key]
    by (auto simp: Exists_def split: sum.splits prod.splits option.splits)
  show ?thesis
    unfolding Let_def using 1 2 3 4 5 6 7 by blast
qed

theorem C10_read_creates_entry_witness:
  "GetBalance mem mem0 addrA = (0, mem0\<lparr>cachedAccounts := [addrA \<mapsto> freshAccount mem]\<rparr>) \<and>
   Exists mem (mem0\<lparr>cachedAccounts := [addrA \<mapsto> freshAccount mem]\<rparr>) addrA
     = (True, mem0\<lparr>cachedAccounts := [addrA \<mapsto> freshAccount mem]\<rparr>) \<and>
   Exists mem mem0 addrA = (False, mem0) \<and>
   Root_loop mem (\<lambda>a. []) [addrA] (mem0\<lparr>cachedAccounts := [addrA \<mapsto> freshAccount mem]\<rparr>)
     = Continue mem0"
proof -
  let ?s = "mem0\<lparr>cachedAccounts := [addrA \<mapsto> freshAccount mem]\<rparr>"
  have 1: "cachedAccounts mem0 addrA = None" by (simp add: mem0_def)
  have 2: "TryGet mem (trie mem0) (kv mem0) addrA = Inr []" by (simp add: mem_ops mem0_def bytesOf_def)
  have e: "Exists mem mem0 addrA = (False, mem0)" by (simp add: Exists_def 1 2)
  have d: "Delete mem ?s addrA = mem0"
    by (simp add: Delete_def mem_ops mem0_def)
  have r: "Root_loop mem (\<lambda>a. []) [addrA] ?s = Continue mem0"
    by (simp add: Root_account_empty isEmpty_fresh d)
  have s: "mem0\<lparr>cachedAccounts := (cachedAccounts mem0)(addrA \<mapsto> freshAccount mem)\<rparr> = ?s"
    by (simp add: mem0_def)
  show ?thesis
    using C10_read_creates_entry [OF 1 2, of "[addrA]" "\<lambda>a. []" mem0 "[]" zeroHash mem0 key1] e r
    by (simp add: s Let_def)
qed

subsection \<open>Determinism of \<^verbatim>\<open>Commit\<close>\<close>

text \<open>
  Claim C9. Two instances are created by \<^verbatim>\<open>New\<close> from the same root over stores of the
  same (empty) content and receive the same sequence of \<^verbatim>\<open>SetBalance\<close>, \<^verbatim>\<open>SetStorage\<close> and
  \<^verbatim>\<open>SetCode\<close> calls. Go may range over the cache and over each overlay in a different
  order in the two instances. With a trie engine whose digest is a function of the
  content, the two \<^verbatim>\<open>Commit\<close> calls, when neither leaves an error on the fault flag,
  return the same digest.
\<close>

theorem C9_determinism:
  assumes "canonical d \<alpha> H"
    and "New d root store = Inr sA" and "New d root store = Inr sB"
    and "iterates (cachedAccounts (run d ops sA)) ao1"
    and "iterates (cachedAccounts (run d ops sB)) ao2"
    and "\<forall>x a. cachedAccounts (run d ops sA) x = Some a \<longrightarrow> iterates (storage a) (ko1 x)"
    and "\<forall>x a. cachedAccounts (run d ops sB) x = Some a \<longrightarrow> iterates (storage a) (ko2 x)"
    and "Commit d ao1 ko1 co1 (run d ops sA) = Inr (h1, s1)" and "Error s1 = None"
    and "Commit d ao2 ko2 co2 (run d ops sB) = Inr (h2, s2)" and "Error s2 = None"
  shows "h1 = h2"
proof -
  have same: "sB = sA" using assms(2,3) by simp
  let ?s = "run d ops sA"
  have digest: "h = H (walkContent d \<alpha> H ?s)"
    if c: "Commit d ao ko co ?s = Inr (h, s')" and e: "Error s' = None"
      and i: "iterates (cachedAccounts ?s) ao"
      and k: "\<And>x a. cachedAccounts ?s x = Some a \<Longrightarrow> iterates (storage a) (ko x)"
    for ao ko co h s'
  proof -
    have e': "err s' = None" using e by (simp add: Error_def)
    obtain sr s3 t st where l: "Root_loop d ko ao ?s = Continue sr" and er: "err sr = None"
      and cl: "Commit_loop d co sr = Continue s3"
      and tc: "TrieCommit d (trie s3) (kv s3) = (Inr h, t, st)"
      using Commit_no_fault [OF c e'] by blast
    have "h = Hash d (trie s3)" using assms(1) tc unfolding canonical_def by blast
    also have "\<dots> = Hash d (trie sr)" using Commit_loop_trie [OF cl] by simp
    also have "\<dots> = H (\<alpha> (trie sr))" using assms(1) unfolding canonical_def by blast
    also have "\<alpha> (trie sr) = walkContent d \<alpha> H ?s"
      by (rule Root_loop_content_iterates [OF assms(1) l er i k])
    finally show ?thesis .
  qed
  have "h1 = H (walkContent d \<alpha> H ?s)"
    using digest [OF assms(8,9,4)] assms(6) by blast
  moreover have "h2 = H (walkContent d \<alpha> H ?s)"
    using digest [of ao2 ko2 co2 h2 s2] assms(5,7,10,11) unfolding same by blast
  ultimately show ?thesis by simp
qed

theorem C9_determinism_witness:
  "canonical mem (\<lambda>t. t) mem_Hash \<and>
   New mem zeroHash Map.empty = Inr mem0 \<and>
   Commit mem [addrA, addrB] koA [addrA, addrB] (run mem opsAB mem0)
     = Inr (mem_Hash [addrA \<mapsto> 1 # codeHash accountA @ mem_Hash [key1 \<mapsto> [7]],
                      addrB \<mapsto> 5 # codeHash accountB @ zeroHash],
            mem0\<lparr>trie := [addrA \<mapsto> 1 # codeHash accountA @ mem_Hash [key1 \<mapsto> [7]],
                           addrB \<mapsto> 5 # codeHash accountB @ zeroHash]\<rparr>) \<and>
   Commit mem [addrB, addrA] koA [addrB, addrA] (run mem opsAB mem0)
     = Inr (mem_Hash [addrB \<mapsto> 5 # codeHash accountB @ zeroHash,
                      addrA \<mapsto> 1 # codeHash accountA @ mem_Hash [key1 \<mapsto> [7]]],
            mem0\<lparr>trie := [addrB \<mapsto> 5 # codeHash accountB @ zeroHash,
                           addrA \<mapsto> 1 # codeHash accountA @ mem_Hash [key1 \<mapsto> [7]]]\<rparr>) \<and>
   mem_Hash [addrA \<mapsto> 1 # codeHash accountA @ mem_Hash [key1 \<mapsto> [7]],
             addrB \<mapsto> 5 # codeHash accountB @ zeroHash]
     = mem_Hash [addrB \<mapsto> 5 # codeHash accountB @ zeroHash,
                 addrA \<mapsto> 1 # codeHash accountA @ mem_Hash [key1 \<mapsto> [7]]]"
proof -
  let ?s = "run mem opsAB mem0"
  have c: "cachedAccounts ?s = [addrB \<mapsto> accountB, addrA \<mapsto> accountA]"
    by (simp add: run_opsAB)
  have i1: "iterates (cachedAccounts ?s) [addrA, addrB]"
    and i2: "iterates (cachedAccounts ?s) [addrB, addrA]"
    unfolding c by (rule iterates_two, rule addr_neq)+
  have k: "\<forall>x a. cachedAccounts ?s x = Some a \<longrightarrow> iterates (storage a) (koA x)"
    unfolding c
    by (auto simp: koA_def accountA_def accountB_def freshAccount_def addr_neq
          iterates_single iterates_empty split: if_splits)
  have e1: "Error (mem0\<lparr>trie := [addrA \<mapsto> 1 # codeHash accountA @ mem_Hash [key1 \<mapsto> [7]],
                           addrB \<mapsto> 5 # codeHash accountB @ zeroHash]\<rparr>) = None"
    and e2: "Error (mem0\<lparr>trie := [addrB \<mapsto> 5 # codeHash accountB @ zeroHash,
                           addrA \<mapsto> 1 # codeHash accountA @ mem_Hash [key1 \<mapsto> [7]]]\<rparr>) = None"
    by (simp_all add: Error_def mem0_def)
  have c1: "Commit mem [addrA, addrB] koA [addrA, addrB] ?s
     = Inr (mem_Hash [addrA \<mapsto> 1 # codeHash accountA @ mem_Hash [key1 \<mapsto> [7]],
                      addrB \<mapsto> 5 # codeHash accountB @ zeroHash],
            mem0\<lparr>trie := [addrA \<mapsto> 1 # codeHash accountA @ mem_Hash [key1 \<mapsto> [7]],
                           addrB \<mapsto> 5 # codeHash accountB @ zeroHash]\<rparr>)"
    unfolding run_opsAB by (rule Commit_AB)
  have c2: "Commit mem [addrB, addrA] koA [addrB, addrA] ?s
     = Inr (mem_Hash [addrB \<mapsto> 5 # codeHash accountB @ zeroHash,
                      addrA \<mapsto> 1 # codeHash accountA @ mem_Hash [key1 \<mapsto> [7]]],
            mem0\<lparr>trie := [addrB \<mapsto> 5 # codeHash accountB @ zeroHash,
                           addrA \<mapsto> 1 # codeHash accountA @ mem_Hash [key1 \<mapsto> [7]]]\<rparr>)"
    unfolding run_opsAB by (rule Commit_BA)
  show ?thesis
    using C9_determinism [OF canonical_mem mem_New mem_New i1 i2 k k c1 e1 c2 e2]
      canonical_mem mem_New c1 c2
    by blast
qed

end
